theory Spec2Isabelle
  imports Main "HOL-Library.Word"
begin

section \<open>Go values as the formatter sees them\<close>

text \<open>
  \<open>jsonFormatter.go\<close> receives its message and its arguments as \<open>interface{}\<close> values
  and inspects them with the \<open>reflect\<close> package. A value of type \<open>gval\<close> is one such
  interface value:
  \<^item> \<open>VNil\<close> is the nil interface;
  \<^item> the integer constructors carry the machine word of their width;
  \<^item> the float constructors carry the IEEE 754 bits;
  \<^item> \<open>VPtr None\<close> is a typed nil pointer; \<open>VPtr (Some v)\<close> with \<open>v\<close> other than \<open>VNil\<close> is
    a pointer to a variable of the type of \<open>v\<close> that holds \<open>v\<close>; \<open>VPtr (Some VNil)\<close> is a
    pointer to an interface variable that holds nil;
  \<^item> \<open>VSlice xs\<close> is a non-nil \<open>[]interface{}\<close>;
  \<^item> \<open>VStruct fs\<close> is a struct, given by its exported fields in declaration order
    (\<open>errors.New\<close> returns a pointer to a struct without exported fields);
  \<^item> \<open>VFunc a\<close> is a \<open>func()\<close> value whose code is at address \<open>a\<close>;
  \<^item> \<open>VErr t v\<close> is the value \<open>v\<close> held at a dynamic type that implements \<open>error\<close>,
    \<open>t\<close> being what its \<open>Error()\<close> method returns.
  Maps, channels, arrays, complex numbers, cyclic data, pointers to an interface variable
  that holds a value, and types with a \<open>MarshalJSON\<close> or \<open>MarshalText\<close> method of their own
  are outside this universe.
\<close>

datatype gval =
    VNil
  | VBool bool
  | VInt "64 word" | VInt8 "8 word" | VInt16 "16 word" | VInt32 "32 word" | VInt64 "64 word"
  | VUint "64 word" | VUint8 "8 word" | VUint16 "16 word" | VUint32 "32 word"
  | VUint64 "64 word" | VUintptr "64 word"
  | VFloat32 "32 word" | VFloat64 "64 word"
  | VString string
  | VPtr "gval option"
  | VSlice "gval list"
  | VStruct "(string \<times> gval) list"
  | VFunc nat
  | VErr string gval

datatype kind =
    KInvalid | KBool
  | KInt | KInt8 | KInt16 | KInt32 | KInt64
  | KUint | KUint8 | KUint16 | KUint32 | KUint64 | KUintptr
  | KFloat32 | KFloat64
  | KString | KPtr | KSlice | KStruct | KFunc | KInterface

text \<open>
  A \<open>reflect.Value\<close> is the zero Value or holds a value. \<open>reflect.ValueOf\<close> gives the zero
  Value for the nil interface. \<open>Val VNil\<close> is the Value of kind \<open>Interface\<close> that \<open>Elem\<close>
  returns for a pointer to an interface variable that holds nil.
\<close>

datatype Value = Zero | Val gval

definition ValueOf :: "gval \<Rightarrow> Value" where
  "ValueOf i = (if i = VNil then Zero else Val i)"

text \<open>\<open>reflect.Value.Kind\<close>: the kind of the underlying type; the zero Value is \<open>Invalid\<close>.\<close>

fun kindOf :: "gval \<Rightarrow> kind" where
  "kindOf VNil = KInterface"
| "kindOf (VBool _) = KBool"
| "kindOf (VInt _) = KInt"
| "kindOf (VInt8 _) = KInt8"
| "kindOf (VInt16 _) = KInt16"
| "kindOf (VInt32 _) = KInt32"
| "kindOf (VInt64 _) = KInt64"
| "kindOf (VUint _) = KUint"
| "kindOf (VUint8 _) = KUint8"
| "kindOf (VUint16 _) = KUint16"
| "kindOf (VUint32 _) = KUint32"
| "kindOf (VUint64 _) = KUint64"
| "kindOf (VUintptr _) = KUintptr"
| "kindOf (VFloat32 _) = KFloat32"
| "kindOf (VFloat64 _) = KFloat64"
| "kindOf (VString _) = KString"
| "kindOf (VPtr _) = KPtr"
| "kindOf (VSlice _) = KSlice"
| "kindOf (VStruct _) = KStruct"
| "kindOf (VFunc _) = KFunc"
| "kindOf (VErr _ v) = kindOf v"

fun Kind :: "Value \<Rightarrow> kind" where
  "Kind Zero = KInvalid"
| "Kind (Val v) = kindOf v"

text \<open>
  \<open>reflect.Value.Elem\<close> on a pointer: a Value that holds what the pointer points to, or
  the zero Value for a nil pointer. It is only called on Values of kind \<open>Ptr\<close>.
\<close>

fun pointee :: "gval \<Rightarrow> Value" where
  "pointee (VPtr (Some v)) = Val v"
| "pointee (VPtr None) = Zero"
| "pointee (VErr _ v) = pointee v"
| "pointee v = Val v"

fun Elem :: "Value \<Rightarrow> Value" where
  "Elem Zero = Zero"
| "Elem (Val v) = pointee v"

text \<open>\<open>reflect.Value.Bool\<close>, \<open>Int\<close> (an \<open>int64\<close>) and \<open>Uint\<close> (a \<open>uint64\<close>).\<close>

fun boolOf :: "gval \<Rightarrow> bool" where
  "boolOf (VBool b) = b"
| "boolOf (VErr _ v) = boolOf v"
| "boolOf _ = False"

fun rBool :: "Value \<Rightarrow> bool" where
  "rBool (Val v) = boolOf v"
| "rBool Zero = False"

fun intOf :: "gval \<Rightarrow> int" where
  "intOf (VInt w) = sint w"
| "intOf (VInt8 w) = sint w"
| "intOf (VInt16 w) = sint w"
| "intOf (VInt32 w) = sint w"
| "intOf (VInt64 w) = sint w"
| "intOf (VErr _ v) = intOf v"
| "intOf _ = 0"

fun rInt :: "Value \<Rightarrow> int" where
  "rInt (Val v) = intOf v"
| "rInt Zero = 0"

fun uintOf :: "gval \<Rightarrow> nat" where
  "uintOf (VUint w) = unat w"
| "uintOf (VUint8 w) = unat w"
| "uintOf (VUint16 w) = unat w"
| "uintOf (VUint32 w) = unat w"
| "uintOf (VUint64 w) = unat w"
| "uintOf (VUintptr w) = unat w"
| "uintOf (VErr _ v) = uintOf v"
| "uintOf _ = 0"

fun rUint :: "Value \<Rightarrow> nat" where
  "rUint (Val v) = uintOf v"
| "rUint Zero = 0"

text \<open>\<open>reflect.Value.Float\<close>, as the bits of the float of kind \<open>Float32\<close> or \<open>Float64\<close>.\<close>

fun float32Of :: "gval \<Rightarrow> 32 word" where
  "float32Of (VFloat32 w) = w"
| "float32Of (VErr _ v) = float32Of v"
| "float32Of _ = 0"

fun rFloat32 :: "Value \<Rightarrow> 32 word" where
  "rFloat32 (Val v) = float32Of v"
| "rFloat32 Zero = 0"

fun float64Of :: "gval \<Rightarrow> 64 word" where
  "float64Of (VFloat64 w) = w"
| "float64Of (VErr _ v) = float64Of v"
| "float64Of _ = 0"

fun rFloat64 :: "Value \<Rightarrow> 64 word" where
  "rFloat64 (Val v) = float64Of v"
| "rFloat64 Zero = 0"

datatype panic =
    ZeroValueInterface  \<comment> \<open>reflect: call of reflect.Value.Interface on zero Value\<close>
  | IndexOutOfRange     \<comment> \<open>runtime error: index out of range\<close>
  | UnmarshalFailed     \<comment> \<open>the panic raised by \<open>LogEntry\<close>\<close>

text \<open>
  \<open>reflect.Value.Interface\<close> panics on the zero Value and returns what any other Value
  holds.
\<close>

fun Interface :: "Value \<Rightarrow> panic + gval" where
  "Interface Zero = Inl ZeroValueInterface"
| "Interface (Val v) = Inr v"

text \<open>
  The type assertion \<open>val.(error)\<close>: the \<open>Error()\<close> text when the dynamic type implements
  \<open>error\<close>. The method set of a pointer type \<open>*T\<close> holds the methods of \<open>T\<close> only when \<open>T\<close> is
  neither a pointer type nor an interface type: a pointer to a value whose type has the
  method has it too, a pointer to a pointer and a pointer to an interface variable do not.
\<close>

fun asError :: "gval \<Rightarrow> string option" where
  "asError (VErr t _) = Some t"
| "asError (VPtr (Some (VErr t v))) =
     (if kindOf v = KPtr \<or> kindOf v = KInterface then None else Some t)"
| "asError _ = None"

text \<open>The type assertion \<open>args[i].(string)\<close>: only a value of type \<open>string\<close> itself.\<close>

fun asString :: "gval \<Rightarrow> string option" where
  "asString (VString s) = Some s"
| "asString _ = None"

section \<open>Decimal rendering: \<open>strconv.FormatUint\<close> and \<open>strconv.FormatInt\<close> in base 10\<close>

definition digit_char :: "nat \<Rightarrow> char" where
  "digit_char d = ''0123456789'' ! d"

function FormatUint :: "nat \<Rightarrow> string" where
  "FormatUint n = (if n < 10 then [digit_char n] else FormatUint (n div 10) @ [digit_char (n mod 10)])"
  by pat_completeness auto
termination
  by (relation "measure id") auto

declare FormatUint.simps [simp del]

definition FormatInt :: "int \<Rightarrow> string" where
  "FormatInt i = (if i < 0 then CHR ''-'' # FormatUint (nat (- i)) else FormatUint (nat i))"

text \<open>Reading a decimal literal back (\<open>strconv.ParseUint\<close>, \<open>strconv.ParseInt\<close> on well-formed input).\<close>

definition digit_val :: "char \<Rightarrow> nat" where
  "digit_val c = of_char c - 48"

definition is_digit :: "char \<Rightarrow> bool" where
  "is_digit c = (48 \<le> (of_char c :: nat) \<and> (of_char c :: nat) \<le> 57)"

definition ParseUint :: "string \<Rightarrow> nat" where
  "ParseUint s = foldl (\<lambda>acc c. 10 * acc + digit_val c) 0 s"

definition ParseInt :: "string \<Rightarrow> int" where
  "ParseInt s =
     (if s \<noteq> [] \<and> hd s = CHR ''-'' then - int (ParseUint (tl s)) else int (ParseUint s))"

section \<open>The environment of the formatter\<close>

text \<open>
  What \<open>jsonFormatter.go\<close> uses and does not define: the package-level names
  \<open>timeFormat\<close>, \<open>LevelMap\<close>, \<open>callstackKey\<close>, \<open>warnImbalancedKey\<close>, \<open>badKeyAtIndex\<close>
  (declared elsewhere in the package), the clock and the call stack, and the library
  functions \<open>json.Marshal\<close>, \<open>fmt.Sprintf("%#v", _)\<close>, \<open>strconv.FormatFloat\<close> and, under
  \<open>json.Unmarshal\<close>, \<open>strconv.ParseFloat\<close>. They are parameters of the model:
  \<^item> \<open>Now\<close> is \<open>time.Now().Format(timeFormat)\<close>;
  \<^item> \<open>LevelMap\<close> is the lookup \<open>LevelMap[level]\<close> in a Go map, total;
  \<^item> \<open>Stack\<close> is \<open>string(debug.Stack())\<close>;
  \<^item> \<open>Marshal v\<close> is \<open>Some b\<close> when \<open>json.Marshal(v)\<close> returns the bytes \<open>b\<close> and \<open>None\<close>
    when it returns an error;
  \<^item> \<open>FormatFloat32 w\<close> is \<open>strconv.FormatFloat(f, 'g', -1, 32)\<close> for the float with bits
    \<open>w\<close>, and \<open>FormatFloat64\<close> likewise with 64;
  \<^item> \<open>ParseFloat s\<close> is \<open>Some w\<close> when \<open>strconv.ParseFloat(s, 64)\<close> returns the float with
    bits \<open>w\<close> and \<open>None\<close> when it returns an error.
  The calls to \<open>InternalLog.Error\<close> write to another sink and leave the buffer alone; they
  are not part of the model.
\<close>

record env =
  Now :: string
  LevelMap :: "int \<Rightarrow> string"
  callstackKey :: string
  warnImbalancedKey :: string
  badKeyAtIndex :: "nat \<Rightarrow> string"
  Stack :: string
  Marshal :: "gval \<Rightarrow> string option"
  Sprintf :: "gval \<Rightarrow> string"
  FormatFloat32 :: "32 word \<Rightarrow> string"
  FormatFloat64 :: "64 word \<Rightarrow> string"
  ParseFloat :: "string \<Rightarrow> 64 word option"

record JSONFormatter =
  name :: string

definition NewJSONFormatter :: "string \<Rightarrow> JSONFormatter" where
  "NewJSONFormatter n = \<lparr>name = n\<rparr>"

section \<open>The formatter\<close>

text \<open>
  A \<open>bytes.Buffer\<close> is the string written so far; every method returns the buffer it
  leaves, or the panic that escapes it. The receiver is passed where the method reads it
  (\<open>Format\<close> and \<open>LogEntry\<close>, for the name).
\<close>

type_synonym buffer = string

definition writeString :: "env \<Rightarrow> buffer \<Rightarrow> string \<Rightarrow> buffer" where
  \<open>writeString e buf s =
     (case Marshal e (VString s) of
        None \<Rightarrow> buf @ ''"Could not marshal this key's string"''
      | Some b \<Rightarrow> buf @ b)\<close>

text \<open>
  \<open>set_kv\<close> is the method \<open>set\<close> (renamed: \<open>set\<close> is taken in HOL). \<open>writeError\<close> receives
  \<open>err.Error()\<close>, the only thing it reads from \<open>err\<close>.
\<close>

definition is_error_val :: "gval \<Rightarrow> nat" where
  "is_error_val val = (if asError val = None then 0 else 3)"

function appendValue :: "env \<Rightarrow> buffer \<Rightarrow> gval \<Rightarrow> panic + buffer"
  and writeError :: "env \<Rightarrow> buffer \<Rightarrow> string \<Rightarrow> panic + buffer"
  and set_kv :: "env \<Rightarrow> buffer \<Rightarrow> string \<Rightarrow> gval \<Rightarrow> panic + buffer"
where
  \<open>appendValue e buf val =
     (if val = VNil then Inr (buf @ ''null'')
      else
        let value = ValueOf val;
            kind = Kind value;
            value = (if kind = KPtr then Elem value else value);
            kind = Kind value
        in if kind = KBool then
             (if rBool value then Inr (buf @ ''true'') else Inr (buf @ ''false''))
           else if kind \<in> {KInt, KInt8, KInt16, KInt32, KInt64} then
             Inr (buf @ FormatInt (rInt value))
           else if kind \<in> {KUint, KUint8, KUint16, KUint32, KUint64, KUintptr} then
             Inr (buf @ FormatUint (rUint value))
           else if kind = KFloat32 then
             Inr (buf @ FormatFloat32 e (rFloat32 value))
           else if kind = KFloat64 then
             Inr (buf @ FormatFloat64 e (rFloat64 value))
           else
             (case asError val of
                Some err \<Rightarrow> writeError e buf err
              | None \<Rightarrow>
                 (case Interface value of
                    Inl p \<Rightarrow> Inl p
                  | Inr i \<Rightarrow>
                     (case Marshal e i of
                        Some b \<Rightarrow> Inr (buf @ b)
                      | None \<Rightarrow>
                         (case Marshal e (VString (Sprintf e i)) of
                            Some b \<Rightarrow> Inr (buf @ b)
                          | None \<Rightarrow> Inr (buf @ ''"'' @ ''Could not Sprintf value'' @ ''"''))))))\<close>
| \<open>writeError e buf err =
     set_kv e (writeString e buf err) (callstackKey e) (VString (Stack e))\<close>
| \<open>set_kv e buf key val =
     appendValue e (((buf @ '', "'') @ key) @ ''":'') val\<close>
  by pat_completeness auto
termination
  by (relation "measure (\<lambda>x. case x of
         Inl (e, buf, val) \<Rightarrow> is_error_val val + 1
       | Inr (Inl (e, buf, err)) \<Rightarrow> 3
       | Inr (Inr (e, buf, key, val)) \<Rightarrow> is_error_val val + 2)")
     (auto simp: is_error_val_def)

declare appendValue.simps [simp del] writeError.simps [simp del] set_kv.simps [simp del]

text \<open>
  \<open>args[j]\<close> panics when \<open>j\<close> is out of range.
\<close>

definition index :: "gval list \<Rightarrow> nat \<Rightarrow> panic + gval" where
  "index args j = (if j < length args then Inr (args ! j) else Inl IndexOutOfRange)"

text \<open>
  The loop \<open>for i := 0; i < lenArgs; i += 2\<close> of \<open>Format\<close>, from the index \<open>i\<close> on.
\<close>

function Format_loop :: "env \<Rightarrow> gval list \<Rightarrow> nat \<Rightarrow> buffer \<Rightarrow> panic + buffer" where
  \<open>Format_loop e args i buf =
     (if i < length args then
        (case index args i of
           Inl p \<Rightarrow> Inl p
         | Inr k \<Rightarrow>
            (case index args (i + 1) of
               Inl p \<Rightarrow> Inl p
             | Inr v \<Rightarrow>
                (case (case asString k of
                         Some key \<Rightarrow>
                           (if key = [] then set_kv e buf (badKeyAtIndex e i) v
                            else set_kv e buf key v)
                       | None \<Rightarrow> set_kv e buf (badKeyAtIndex e i) v) of
                   Inl p \<Rightarrow> Inl p
                 | Inr buf' \<Rightarrow> Format_loop e args (i + 2) buf')))
      else Inr buf)\<close>
  by pat_completeness auto
termination
  by (relation "measure (\<lambda>(e, args, i, buf). length args - i)") auto

declare Format_loop.simps [simp del]

definition Format :: "JSONFormatter \<Rightarrow> env \<Rightarrow> buffer \<Rightarrow> int \<Rightarrow> string \<Rightarrow> gval list \<Rightarrow> panic + buffer" where
  \<open>Format jf e buf level msg args =
     (let buf = buf @ ''{"_t":"'';
          buf = buf @ Now e;
          buf = buf @ ''"'';
          buf = buf @ '', "_l":"'';
          buf = buf @ LevelMap e level;
          buf = buf @ ''"'';
          buf = buf @ '', "_n":"'';
          buf = buf @ name jf;
          buf = buf @ ''"'';
          buf = buf @ '', "_m":''
      in case appendValue e buf (VString msg) of
           Inl p \<Rightarrow> Inl p
         | Inr buf \<Rightarrow>
            (let lenArgs = length args
             in case (if lenArgs > 0 then
                        (if lenArgs mod 2 = 0 then Format_loop e args 0 buf
                         else set_kv e buf (warnImbalancedKey e) (VSlice args))
                      else Inr buf) of
                  Inl p \<Rightarrow> Inl p
                | Inr buf \<Rightarrow> Inr (buf @ ''}'' @ [CHR 0x0A])))\<close>

section \<open>The library functions: \<open>encoding/json\<close> and \<open>fmt\<close>\<close>

text \<open>
  \<open>utf8.DecodeRune\<close>, as far as \<open>encoding/json\<close> uses it: \<open>rune_len s\<close> is the number of
  bytes of the well-formed UTF-8 sequence at the head of \<open>s\<close>, and \<open>0\<close> where there is none
  (\<open>DecodeRune\<close> then returns \<open>RuneError\<close> with size 1). \<open>accepts\<close> checks the bytes after the
  first against their ranges.
\<close>

fun accepts :: "(nat \<times> nat) list \<Rightarrow> string \<Rightarrow> bool" where
  "accepts [] r = True"
| "accepts (b # bs) [] = False"
| "accepts (b # bs) (c # r) = (fst b \<le> of_char c \<and> of_char c \<le> snd b \<and> accepts bs r)"

definition rune_len :: "string \<Rightarrow> nat" where
  "rune_len s =
     (if s = [] then 0
      else
        let x = (of_char (hd s) :: nat); r = tl s
        in if x < 0x80 then 1
           else if 0xC2 \<le> x \<and> x \<le> 0xDF then (if accepts [(0x80, 0xBF)] r then 2 else 0)
           else if x = 0xE0 then (if accepts [(0xA0, 0xBF), (0x80, 0xBF)] r then 3 else 0)
           else if x = 0xED then (if accepts [(0x80, 0x9F), (0x80, 0xBF)] r then 3 else 0)
           else if 0xE1 \<le> x \<and> x \<le> 0xEF then
             (if accepts [(0x80, 0xBF), (0x80, 0xBF)] r then 3 else 0)
           else if x = 0xF0 then
             (if accepts [(0x90, 0xBF), (0x80, 0xBF), (0x80, 0xBF)] r then 4 else 0)
           else if 0xF1 \<le> x \<and> x \<le> 0xF3 then
             (if accepts [(0x80, 0xBF), (0x80, 0xBF), (0x80, 0xBF)] r then 4 else 0)
           else if x = 0xF4 then
             (if accepts [(0x80, 0x8F), (0x80, 0xBF), (0x80, 0xBF)] r then 4 else 0)
           else 0)"

lemma rune_len_drop: "s \<noteq> [] \<Longrightarrow> rune_len s \<noteq> 0 \<Longrightarrow> length (drop (rune_len s) s) < length s"
  by (cases s) simp_all

text \<open>The bytes of U+FFFD, which stands for a byte that starts no well-formed sequence.\<close>

definition replacement :: string where
  "replacement = [CHR 0xEF, CHR 0xBF, CHR 0xBD]"

text \<open>
  A model of \<open>json.Marshal\<close> on the values above, after the encoder of Go 1.22: compact
  output, HTML-safe string escaping, pointers followed (a nil pointer is \<open>null\<close>), a
  struct as the object of its exported fields, a func rejected. In a string, \<open>escape\<close> is
  what the encoder writes for a byte below \<open>0x80\<close>; from \<open>0x80\<close> on it writes a
  well-formed sequence as it is, except U+2028 and U+2029, and the escape of U+FFFD for a
  byte that starts none. Finite floats are outside what the model renders: both the float
  case here and \<open>strconv.FormatFloat\<close> in the sample environment below are stubs that
  write \<open>0\<close>, and no evaluation in this theory contains a float value.
\<close>

definition hex_char :: "nat \<Rightarrow> char" where
  "hex_char d = ''0123456789abcdef'' ! d"

function FormatHex :: "nat \<Rightarrow> string" where
  "FormatHex n = (if n < 16 then [hex_char n] else FormatHex (n div 16) @ [hex_char (n mod 16)])"
  by pat_completeness auto
termination
  by (relation "measure id") auto

declare FormatHex.simps [simp del]

definition escape :: "char \<Rightarrow> string" where
  \<open>escape c =
     (if c = CHR ''"'' \<or> c = CHR 0x5C then [CHR 0x5C, c]
      else if c = CHR 0x08 then [CHR 0x5C, CHR ''b'']
      else if c = CHR 0x0C then [CHR 0x5C, CHR ''f'']
      else if c = CHR 0x0A then [CHR 0x5C, CHR ''n'']
      else if c = CHR 0x0D then [CHR 0x5C, CHR ''r'']
      else if c = CHR 0x09 then [CHR 0x5C, CHR ''t'']
      else if (of_char c :: nat) < 0x20 \<or> c = CHR ''<'' \<or> c = CHR ''>'' \<or> c = CHR ''&'' then
        [CHR 0x5C, CHR ''u'', CHR ''0'', CHR ''0'',
         hex_char (of_char c div 16), hex_char (of_char c mod 16)]
      else [c])\<close>

function escape_string :: "string \<Rightarrow> string" where
  \<open>escape_string s =
     (if s = [] then []
      else if (of_char (hd s) :: nat) < 0x80 then escape (hd s) @ escape_string (tl s)
      else if rune_len s = 0 then (CHR 0x5C # ''ufffd'') @ escape_string (tl s)
      else if take 3 s = [CHR 0xE2, CHR 0x80, CHR 0xA8] then
        (CHR 0x5C # ''u2028'') @ escape_string (drop 3 s)
      else if take 3 s = [CHR 0xE2, CHR 0x80, CHR 0xA9] then
        (CHR 0x5C # ''u2029'') @ escape_string (drop 3 s)
      else take (rune_len s) s @ escape_string (drop (rune_len s) s))\<close>
  by pat_completeness auto
termination
proof (relation "measure length")
  fix s :: string
  assume "s \<noteq> []" "rune_len s \<noteq> 0"
  then show "(drop (rune_len s) s, s) \<in> measure length"
    by (simp add: rune_len_drop)
qed (auto simp: neq_Nil_conv)

declare escape_string.simps [simp del]

definition quote :: "string \<Rightarrow> string" where
  \<open>quote s = ''"'' @ escape_string s @ ''"''\<close>

fun intercalate :: "string \<Rightarrow> string list \<Rightarrow> string" where
  "intercalate sep [] = []"
| "intercalate sep [x] = x"
| "intercalate sep (x # y # ys) = x @ sep @ intercalate sep (y # ys)"

fun json_Marshal :: "gval \<Rightarrow> string option" where
  "json_Marshal VNil = Some ''null''"
| "json_Marshal (VBool b) = Some (if b then ''true'' else ''false'')"
| "json_Marshal (VInt w) = Some (FormatInt (sint w))"
| "json_Marshal (VInt8 w) = Some (FormatInt (sint w))"
| "json_Marshal (VInt16 w) = Some (FormatInt (sint w))"
| "json_Marshal (VInt32 w) = Some (FormatInt (sint w))"
| "json_Marshal (VInt64 w) = Some (FormatInt (sint w))"
| "json_Marshal (VUint w) = Some (FormatUint (unat w))"
| "json_Marshal (VUint8 w) = Some (FormatUint (unat w))"
| "json_Marshal (VUint16 w) = Some (FormatUint (unat w))"
| "json_Marshal (VUint32 w) = Some (FormatUint (unat w))"
| "json_Marshal (VUint64 w) = Some (FormatUint (unat w))"
| "json_Marshal (VUintptr w) = Some (FormatUint (unat w))"
| "json_Marshal (VFloat32 w) = Some ''0''"
| "json_Marshal (VFloat64 w) = Some ''0''"
| "json_Marshal (VString s) = Some (quote s)"
| "json_Marshal (VPtr None) = Some ''null''"
| "json_Marshal (VPtr (Some v)) = json_Marshal v"
| "json_Marshal (VSlice xs) =
     (case those (map json_Marshal xs) of
        None \<Rightarrow> None
      | Some ts \<Rightarrow> Some (''['' @ intercalate '','' ts @ '']''))"
| "json_Marshal (VStruct fs) =
     (case those (map (\<lambda>(n, v). map_option (\<lambda>t. quote n @ '':'' @ t) (json_Marshal v)) fs) of
        None \<Rightarrow> None
      | Some ts \<Rightarrow> Some (''{'' @ intercalate '','' ts @ ''}''))"
| "json_Marshal (VFunc a) = None"
| "json_Marshal (VErr t v) = json_Marshal v"


text \<open>
  \<open>fmt.Sprintf("%#v", v)\<close> for the sample environment: the Go-syntax text of nil
  (\<open><nil>\<close> on its own, \<open>interface {}(nil)\<close> as an element of a slice),
  booleans, integers, strings, funcs and slices of interface values. A string is quoted
  as \<open>strconv.Quote\<close> quotes it when its bytes from \<open>0x80\<close> on belong to printable runes:
  such bytes are copied. The text of a pointer, a struct, a float or an error value
  contains type names and addresses the model does not carry; for them the sample writes
  a question mark.
\<close>

definition go_quote_char :: "char \<Rightarrow> string" where
  \<open>go_quote_char c =
     (if c = CHR ''"'' \<or> c = CHR 0x5C then [CHR 0x5C, c]
      else if c = CHR 0x07 then [CHR 0x5C, CHR ''a'']
      else if c = CHR 0x08 then [CHR 0x5C, CHR ''b'']
      else if c = CHR 0x0C then [CHR 0x5C, CHR ''f'']
      else if c = CHR 0x0A then [CHR 0x5C, CHR ''n'']
      else if c = CHR 0x0D then [CHR 0x5C, CHR ''r'']
      else if c = CHR 0x09 then [CHR 0x5C, CHR ''t'']
      else if c = CHR 0x0B then [CHR 0x5C, CHR ''v'']
      else if (of_char c :: nat) < 0x20 \<or> c = CHR 0x7F then
        [CHR 0x5C, CHR ''x'', hex_char (of_char c div 16), hex_char (of_char c mod 16)]
      else [c])\<close>

fun go_Sprintf :: "gval \<Rightarrow> string" where
  \<open>go_Sprintf VNil = ''<nil>''\<close>
| \<open>go_Sprintf (VBool b) = (if b then ''true'' else ''false'')\<close>
| \<open>go_Sprintf (VInt w) = FormatInt (sint w)\<close>
| \<open>go_Sprintf (VInt8 w) = FormatInt (sint w)\<close>
| \<open>go_Sprintf (VInt16 w) = FormatInt (sint w)\<close>
| \<open>go_Sprintf (VInt32 w) = FormatInt (sint w)\<close>
| \<open>go_Sprintf (VInt64 w) = FormatInt (sint w)\<close>
| \<open>go_Sprintf (VUint w) = ''0x'' @ FormatHex (unat w)\<close>
| \<open>go_Sprintf (VUint8 w) = ''0x'' @ FormatHex (unat w)\<close>
| \<open>go_Sprintf (VUint16 w) = ''0x'' @ FormatHex (unat w)\<close>
| \<open>go_Sprintf (VUint32 w) = ''0x'' @ FormatHex (unat w)\<close>
| \<open>go_Sprintf (VUint64 w) = ''0x'' @ FormatHex (unat w)\<close>
| \<open>go_Sprintf (VUintptr w) = ''0x'' @ FormatHex (unat w)\<close>
| \<open>go_Sprintf (VString s) = ''"'' @ concat (map go_quote_char s) @ ''"''\<close>
| \<open>go_Sprintf (VFunc a) = ''(func())(0x'' @ FormatHex a @ '')''\<close>
| \<open>go_Sprintf (VSlice xs) =
     ''[]interface {}{'' @
     intercalate '', '' (map (\<lambda>x. if x = VNil then ''interface {}(nil)'' else go_Sprintf x) xs) @
     ''}''\<close>
| \<open>go_Sprintf _ = ''?''\<close>

section \<open>Number literals: the scanner and \<open>strconv.ParseFloat\<close>\<close>

definition starts :: "char \<Rightarrow> string \<Rightarrow> bool" where
  "starts c s = (s \<noteq> [] \<and> hd s = c)"

text \<open>A JSON number: number = [ - ] int [ frac ] [ exp ]\<close>

definition scan_int :: "string \<Rightarrow> (string \<times> string) option" where
  "scan_int s =
     (if starts CHR ''0'' s then Some (''0'', tl s)
      else if s \<noteq> [] \<and> is_digit (hd s) then Some (takeWhile is_digit s, dropWhile is_digit s)
      else None)"

definition scan_digits1 :: "string \<Rightarrow> (string \<times> string) option" where
  "scan_digits1 s =
     (if s \<noteq> [] \<and> is_digit (hd s) then Some (takeWhile is_digit s, dropWhile is_digit s)
      else None)"

definition scan_frac :: "string \<Rightarrow> (string \<times> string) option" where
  "scan_frac s =
     (if starts CHR ''.'' s then
        (case scan_digits1 (tl s) of None \<Rightarrow> None | Some (ds, r) \<Rightarrow> Some (CHR ''.'' # ds, r))
      else Some ([], s))"

definition scan_exp :: "string \<Rightarrow> (string \<times> string) option" where
  "scan_exp s =
     (if starts CHR ''e'' s \<or> starts CHR ''E'' s then
        (let r = tl s;
             (sg, r') = (if starts CHR ''+'' r \<or> starts CHR ''-'' r then ([hd r], tl r) else ([], r))
         in case scan_digits1 r' of None \<Rightarrow> None | Some (ds, r'') \<Rightarrow> Some (hd s # sg @ ds, r''))
      else Some ([], s))"

definition parse_number :: "string \<Rightarrow> (string \<times> string) option" where
  "parse_number s =
     (let (sg, r) = (if starts CHR ''-'' s then (''-'', tl s) else ([], s))
      in case scan_int r of
           None \<Rightarrow> None
         | Some (ip, r1) \<Rightarrow>
            (case scan_frac r1 of
               None \<Rightarrow> None
             | Some (fp, r2) \<Rightarrow>
                (case scan_exp r2 of
                   None \<Rightarrow> None
                 | Some (ep, r3) \<Rightarrow> Some (sg @ ip @ fp @ ep, r3))))"

text \<open>
  \<open>strconv.ParseFloat(s, 64)\<close> on a literal of the grammar above: the float nearest to the
  decimal value, ties to even, and an error when that is an infinity. The value is
  \<open>num / den\<close>; \<open>bitlen\<close> counts binary digits, \<open>floor_log2\<close> is the binary exponent,
  \<open>round_even\<close> rounds a quotient to the nearest integer, and \<open>float64_bits\<close> puts exponent
  and mantissa together, so that a result from \<open>0x7FF0000000000000\<close> on is an overflow.
\<close>

function bitlen :: "nat \<Rightarrow> nat" where
  "bitlen n = (if n = 0 then 0 else Suc (bitlen (n div 2)))"
  by pat_completeness auto
termination
  by (relation "measure id") auto

declare bitlen.simps [simp del]

definition round_even :: "nat \<Rightarrow> nat \<Rightarrow> nat" where
  "round_even a b =
     (let q = a div b; r = a mod b
      in if 2 * r < b then q else if b < 2 * r then q + 1 else if even q then q else q + 1)"

definition floor_log2 :: "nat \<Rightarrow> nat \<Rightarrow> int" where
  "floor_log2 num den =
     (let k = int (bitlen num) - int (bitlen den)
      in if (if 0 \<le> k then 2 ^ nat k * den \<le> num else den \<le> 2 ^ nat (- k) * num) then k
         else k - 1)"

definition float64_bits :: "nat \<Rightarrow> nat \<Rightarrow> nat" where
  "float64_bits num den =
     (if num = 0 then 0
      else
        let s = max (floor_log2 num den) (- 1022);
            q = (if s \<le> 52 then round_even (num * 2 ^ nat (52 - s)) den
                 else round_even num (den * 2 ^ nat (s - 52)))
        in nat (s + 1022) * 2 ^ 52 + q)"

definition exp_val :: "string \<Rightarrow> int" where
  "exp_val ep =
     (if ep = [] then 0
      else if starts CHR ''-'' (tl ep) then - int (ParseUint (tl (tl ep)))
      else if starts CHR ''+'' (tl ep) then int (ParseUint (tl (tl ep)))
      else int (ParseUint (tl ep)))"

definition go_ParseFloat :: "string \<Rightarrow> 64 word option" where
  "go_ParseFloat s =
     (case scan_int (if starts CHR ''-'' s then tl s else s) of
        None \<Rightarrow> None
      | Some (ip, r1) \<Rightarrow>
         (case scan_frac r1 of
            None \<Rightarrow> None
          | Some (fp, r2) \<Rightarrow>
             (case scan_exp r2 of
                None \<Rightarrow> None
              | Some (ep, r3) \<Rightarrow>
                 if r3 \<noteq> [] then None
                 else
                   let m = ParseUint (ip @ tl fp);
                       ex = exp_val ep - int (length (tl fp));
                       bits = (if 0 \<le> ex then float64_bits (m * 10 ^ nat ex) 1
                               else float64_bits m (10 ^ nat (- ex)))
                   in if 0x7FF0000000000000 \<le> bits then None
                      else Some (word_of_nat (if starts CHR ''-'' s then bits + 2 ^ 63 else bits)))))"

section \<open>A sample environment\<close>

text \<open>
  The sample environment of the evaluations below. Its keys and level names are those of
  the examples in the specification; the time and the stack are fixed texts.
\<close>

definition go_env :: env where
  \<open>go_env =
     \<lparr>Now = ''2026-01-02T15:04:05'',
      LevelMap = (\<lambda>l. if l = 3 then ''ERROR'' else if l = 4 then ''WARN''
                      else if l = 6 then ''INFO'' else []),
      callstackKey = ''callstack'',
      warnImbalancedKey = ''args(odd)'',
      badKeyAtIndex = (\<lambda>i. ''badKey['' @ FormatUint i @ '']''),
      Stack = ''goroutine 1 [running]:'' @ [CHR 0x0A] @ ''main.main()'',
      Marshal = json_Marshal,
      Sprintf = go_Sprintf,
      FormatFloat32 = (\<lambda>w. ''0''),
      FormatFloat64 = (\<lambda>w. ''0''),
      ParseFloat = go_ParseFloat\<rparr>\<close>

section \<open>Reading JSON back: \<open>json.Unmarshal\<close>\<close>

text \<open>
  A JSON text as a tree. A number keeps its literal and an object keeps its members in
  order, duplicates included; \<open>decode\<close> below turns the tree into what Go stores. The reader
  follows the grammar of RFC 8259, which is what the scanner of \<open>encoding/json\<close> accepts;
  in a string it resolves the escapes, copies every well-formed UTF-8 sequence and puts
  U+FFFD for a byte that starts none, as the decoder of \<open>encoding/json\<close> does.
\<close>

datatype json =
    JNull | JBool bool | JNumber string | JString string
  | JArray "json list" | JObject "(string \<times> json) list"

definition is_ws :: "char \<Rightarrow> bool" where
  "is_ws c = (c = CHR '' '' \<or> c = CHR 0x09 \<or> c = CHR 0x0A \<or> c = CHR 0x0D)"

definition skip_ws :: "string \<Rightarrow> string" where
  "skip_ws s = dropWhile is_ws s"

lemma length_skip_ws: "length (skip_ws s) \<le> length s"
  by (simp add: skip_ws_def length_dropWhile_le)

definition hex_val :: "char \<Rightarrow> nat option" where
  "hex_val c =
     (let b = (of_char c :: nat) in
      if 48 \<le> b \<and> b \<le> 57 then Some (b - 48)
      else if 97 \<le> b \<and> b \<le> 102 then Some (b - 87)
      else if 65 \<le> b \<and> b \<le> 70 then Some (b - 55)
      else None)"

text \<open>\<open>getu4\<close> without the leading backslash-u: four hexadecimal digits.\<close>

definition getu4 :: "string \<Rightarrow> nat option" where
  "getu4 s =
     (case s of
        a # b # c # d # _ \<Rightarrow>
          (case (hex_val a, hex_val b, hex_val c, hex_val d) of
             (Some x, Some y, Some z, Some w) \<Rightarrow> Some (((x * 16 + y) * 16 + z) * 16 + w)
           | _ \<Rightarrow> None)
      | _ \<Rightarrow> None)"

definition utf8_encode :: "nat \<Rightarrow> string" where
  "utf8_encode r =
     (if r < 0x80 then [char_of r]
      else if r < 0x800 then [char_of (0xC0 + r div 64), char_of (0x80 + r mod 64)]
      else if r < 0x10000 then
        [char_of (0xE0 + r div 4096), char_of (0x80 + (r div 64) mod 64), char_of (0x80 + r mod 64)]
      else
        [char_of (0xF0 + r div 262144), char_of (0x80 + (r div 4096) mod 64),
         char_of (0x80 + (r div 64) mod 64), char_of (0x80 + r mod 64)])"

definition unescape :: "char \<Rightarrow> char option" where
  \<open>unescape d =
     (if d = CHR ''"'' \<or> d = CHR 0x5C \<or> d = CHR ''/'' then Some d
      else if d = CHR ''b'' then Some (CHR 0x08)
      else if d = CHR ''f'' then Some (CHR 0x0C)
      else if d = CHR ''n'' then Some (CHR 0x0A)
      else if d = CHR ''r'' then Some (CHR 0x0D)
      else if d = CHR ''t'' then Some (CHR 0x09)
      else None)\<close>

definition is_surrogate :: "nat \<Rightarrow> bool" where
  "is_surrogate r = (0xD800 \<le> r \<and> r < 0xE000)"

text \<open>The escape \<open>\uXXXX\<close>, read at the four digits: the bytes it stands for and the rest.\<close>

definition unicode_escape :: "string \<Rightarrow> (string \<times> string) option" where
  "unicode_escape s =
     (case getu4 s of
        None \<Rightarrow> None
      | Some rr \<Rightarrow>
         (let r = drop 4 s in
          if is_surrogate rr then
            (case (if starts (CHR 0x5C) r \<and> starts CHR ''u'' (tl r) then getu4 (drop 2 r) else None) of
               Some rr1 \<Rightarrow>
                 (if rr < 0xDC00 \<and> 0xDC00 \<le> rr1 \<and> rr1 < 0xE000 then
                    Some (utf8_encode (0x10000 + (rr - 0xD800) * 1024 + (rr1 - 0xDC00)), drop 6 r)
                  else Some (utf8_encode 0xFFFD, r))
             | None \<Rightarrow> Some (utf8_encode 0xFFFD, r))
          else Some (utf8_encode rr, r)))"

lemma unicode_escape_length: "unicode_escape s = Some (x, r) \<Longrightarrow> length r < length s"
  by (auto simp: unicode_escape_def getu4_def Let_def split: option.splits list.splits if_splits)

function parse_chars :: "string \<Rightarrow> (string \<times> string) option" where
  \<open>parse_chars s =
     (if s = [] then None
      else if hd s = CHR ''"'' then Some ([], tl s)
      else if hd s = CHR 0x5C then
        (if tl s = [] then None
         else if hd (tl s) = CHR ''u'' then
           (case unicode_escape (tl (tl s)) of
              None \<Rightarrow> None
            | Some (x, r) \<Rightarrow>
               (case parse_chars r of None \<Rightarrow> None | Some (cs, r') \<Rightarrow> Some (x @ cs, r')))
         else
           (case unescape (hd (tl s)) of
              None \<Rightarrow> None
            | Some x \<Rightarrow>
               (case parse_chars (tl (tl s)) of
                  None \<Rightarrow> None
                | Some (cs, r') \<Rightarrow> Some (x # cs, r'))))
      else if (of_char (hd s) :: nat) < 0x20 then None
      else if (of_char (hd s) :: nat) < 0x80 then
        (case parse_chars (tl s) of None \<Rightarrow> None | Some (cs, r') \<Rightarrow> Some (hd s # cs, r'))
      else if rune_len s = 0 then
        (case parse_chars (tl s) of None \<Rightarrow> None | Some (cs, r') \<Rightarrow> Some (replacement @ cs, r'))
      else
        (case parse_chars (drop (rune_len s) s) of
           None \<Rightarrow> None
         | Some (cs, r') \<Rightarrow> Some (take (rune_len s) s @ cs, r')))\<close>
  by pat_completeness auto
termination
proof (relation "measure length")
  fix s x2 x y
  assume "s \<noteq> []" "tl s \<noteq> []" "unicode_escape (tl (tl s)) = Some x2" "(x, y) = x2"
  then show "(y, s) \<in> measure length"
    using unicode_escape_length[of "tl (tl s)" x y] by (cases s) auto
next
  fix s :: string
  assume "s \<noteq> []" "rune_len s \<noteq> 0"
  then show "(drop (rune_len s) s, s) \<in> measure length"
    by (simp add: rune_len_drop)
qed (auto simp: neq_Nil_conv)

declare parse_chars.simps [simp del]

definition is_prefix :: "string \<Rightarrow> string \<Rightarrow> bool" where
  "is_prefix p s = (take (length p) s = p)"

text \<open>
  The scanner of \<open>encoding/json\<close> keeps a stack of the objects and arrays that are open
  and gives up, with the error \<open>exceeded max depth\<close>, when it would hold more than
  \<open>maxNestingDepth\<close> of them. The first argument of the three functions below is the
  number of objects and arrays open around the text being read.
\<close>

definition maxNestingDepth :: int where
  "maxNestingDepth = 10000"

function parse_value :: "int \<Rightarrow> string \<Rightarrow> (json \<times> string) option"
  and parse_elems :: "int \<Rightarrow> string \<Rightarrow> (json list \<times> string) option"
  and parse_members :: "int \<Rightarrow> string \<Rightarrow> ((string \<times> json) list \<times> string) option"
where
  \<open>parse_value n s =
     (if s = [] then None
      else if hd s = CHR ''{'' then
        (if maxNestingDepth < n + 1 then None
         else
           let r = skip_ws (tl s) in
           if starts CHR ''}'' r then Some (JObject [], tl r)
           else (case parse_members (n + 1) r of
                   None \<Rightarrow> None
                 | Some (ms, r') \<Rightarrow> Some (JObject ms, r')))
      else if hd s = CHR ''['' then
        (if maxNestingDepth < n + 1 then None
         else
           let r = skip_ws (tl s) in
           if starts CHR '']'' r then Some (JArray [], tl r)
           else (case parse_elems (n + 1) r of
                   None \<Rightarrow> None
                 | Some (vs, r') \<Rightarrow> Some (JArray vs, r')))
      else if hd s = CHR ''"'' then
        (case parse_chars (tl s) of None \<Rightarrow> None | Some (cs, r) \<Rightarrow> Some (JString cs, r))
      else if is_prefix ''true'' s then Some (JBool True, drop 4 s)
      else if is_prefix ''false'' s then Some (JBool False, drop 5 s)
      else if is_prefix ''null'' s then Some (JNull, drop 4 s)
      else (case parse_number s of None \<Rightarrow> None | Some (n, r) \<Rightarrow> Some (JNumber n, r)))\<close>
| \<open>parse_elems n s =
     (case parse_value n s of
        None \<Rightarrow> None
      | Some (v, r) \<Rightarrow>
         (let r1 = skip_ws r in
          if starts CHR '']'' r1 then Some ([v], tl r1)
          else if starts CHR '','' r1 \<and> length (tl r1) < length s then
            (case parse_elems n (skip_ws (tl r1)) of
               None \<Rightarrow> None
             | Some (vs, r2) \<Rightarrow> Some (v # vs, r2))
          else None))\<close>
| \<open>parse_members n s =
     (if starts CHR ''"'' s then
        (case parse_chars (tl s) of
           None \<Rightarrow> None
         | Some (k, r) \<Rightarrow>
            (let r1 = skip_ws r in
             if starts CHR '':'' r1 \<and> length (tl r1) < length s then
               (case parse_value n (skip_ws (tl r1)) of
                  None \<Rightarrow> None
                | Some (v, r2) \<Rightarrow>
                   (let r3 = skip_ws r2 in
                    if starts CHR ''}'' r3 then Some ([(k, v)], tl r3)
                    else if starts CHR '','' r3 \<and> length (tl r3) < length s then
                      (case parse_members n (skip_ws (tl r3)) of
                         None \<Rightarrow> None
                       | Some (ms, r4) \<Rightarrow> Some ((k, v) # ms, r4))
                    else None))
             else None))
      else None)\<close>
  by pat_completeness auto
termination
proof -
  have a: "length (skip_ws (tl s)) < length s" if "s \<noteq> []" for s
  proof -
    have "length (skip_ws (tl s)) \<le> length (tl s)" by (rule length_skip_ws)
    moreover have "length (tl s) < length s" using that by (cases s) simp_all
    ultimately show ?thesis by linarith
  qed
  have a': "Suc (2 * length (skip_ws (tl s))) < 2 * length s" if "s \<noteq> []" for s
    using a[OF that] by linarith
  have b: "length (skip_ws (tl r)) < length s" if "length r - Suc 0 < length s" for r s
  proof -
    have "length (skip_ws (tl r)) \<le> length (tl r)" by (rule length_skip_ws)
    with that show ?thesis by simp
  qed
  have b': "2 * length (skip_ws (tl r)) < Suc (2 * length s)" if "length r - Suc 0 < length s" for r s
    using b[OF that] by linarith
  show ?thesis
    by (relation "measure (\<lambda>x. case x of
            Inl (n, s) \<Rightarrow> 2 * length s
          | Inr (Inl (n, s)) \<Rightarrow> 2 * length s + 1
          | Inr (Inr (n, s)) \<Rightarrow> 2 * length s + 1)")
       (simp_all add: a' b b')
qed

declare parse_value.simps [simp del] parse_elems.simps [simp del] parse_members.simps [simp del]

definition parse_document :: "string \<Rightarrow> json option" where
  "parse_document s =
     (case parse_value 0 (skip_ws s) of
        None \<Rightarrow> None
      | Some (v, r) \<Rightarrow> if skip_ws r = [] then Some v else None)"


text \<open>
  What \<open>json.Unmarshal\<close> stores in an \<open>interface{}\<close>: nil, a \<open>bool\<close>, a \<open>float64\<close> (its
  bits), a \<open>string\<close>, a \<open>[]interface{}\<close> or a \<open>map[string]interface{}\<close>. \<open>decode\<close> converts
  a JSON tree; a number goes through \<open>strconv.ParseFloat\<close>, and the conversion fails when
  that does, on a literal outside the range of \<open>float64\<close>. The members of an object are
  stored one after the other, so a later member replaces an earlier one with the same key.
\<close>

datatype gjson =
    GNil | GBool bool | GFloat64 "64 word" | GString string
  | GSlice "gjson list" | GMap "string \<Rightarrow> gjson option"

fun decode :: "(string \<Rightarrow> 64 word option) \<Rightarrow> json \<Rightarrow> gjson option" where
  "decode pf JNull = Some GNil"
| "decode pf (JBool b) = Some (GBool b)"
| "decode pf (JNumber n) = map_option GFloat64 (pf n)"
| "decode pf (JString s) = Some (GString s)"
| "decode pf (JArray js) = map_option GSlice (those (map (decode pf) js))"
| "decode pf (JObject ms) =
     map_option (\<lambda>kvs. GMap (foldl (\<lambda>m (k, v). m(k \<mapsto> v)) Map.empty kvs))
       (those (map (\<lambda>(k, j). map_option (Pair k) (decode pf j)) ms))"

definition decode_members ::
  "(string \<Rightarrow> 64 word option) \<Rightarrow> (string \<times> json) list \<Rightarrow> (string \<times> gjson) list option" where
  "decode_members pf ms = those (map (\<lambda>(k, j). map_option (Pair k) (decode pf j)) ms)"

text \<open>
  \<open>json.Unmarshal(data, &entry)\<close> for \<open>entry\<close> a \<open>map[string]interface{}\<close>: the document
  must be an object (or \<open>null\<close>, which leaves the map empty), and every number in it must
  convert.
\<close>

definition json_Unmarshal :: "env \<Rightarrow> string \<Rightarrow> (string \<rightharpoonup> gjson) option" where
  "json_Unmarshal e data =
     (case parse_document data of
        Some (JObject ms) \<Rightarrow>
          (case decode_members (ParseFloat e) ms of
             None \<Rightarrow> None
           | Some kvs \<Rightarrow> Some (foldl (\<lambda>m (k, v). m(k \<mapsto> v)) Map.empty kvs))
      | Some JNull \<Rightarrow> Some Map.empty
      | _ \<Rightarrow> None)"

definition LogEntry ::
  "JSONFormatter \<Rightarrow> env \<Rightarrow> int \<Rightarrow> string \<Rightarrow> gval list \<Rightarrow> panic + (string \<rightharpoonup> gjson)" where
  "LogEntry jf e level msg args =
     (case Format jf e [] level msg args of
        Inl p \<Rightarrow> Inl p
      | Inr buf \<Rightarrow>
         (case json_Unmarshal e buf of
            None \<Rightarrow> Inl UnmarshalFailed
          | Some entry \<Rightarrow> Inr entry))"

section \<open>Names for what the theorems speak about\<close>

text \<open>
  The kinds with a case of their own in the \<open>switch\<close> of \<open>appendValue\<close>; the value after
  the one dereference; the two steps of the chain in the default case.
\<close>

definition primitive_kind :: "kind \<Rightarrow> bool" where
  "primitive_kind k =
     (k \<in> {KBool, KInt, KInt8, KInt16, KInt32, KInt64,
            KUint, KUint8, KUint16, KUint32, KUint64, KUintptr, KFloat32, KFloat64})"

definition deref :: "gval \<Rightarrow> Value" where
  "deref val = (if Kind (ValueOf val) = KPtr then Elem (ValueOf val) else ValueOf val)"

definition fallback :: "env \<Rightarrow> gval \<Rightarrow> string" where
  \<open>fallback e i =
     (case Marshal e (VString (Sprintf e i)) of
        Some b \<Rightarrow> b
      | None \<Rightarrow> ''"Could not Sprintf value"'')\<close>

definition structural :: "env \<Rightarrow> gval \<Rightarrow> string" where
  "structural e i = (case Marshal e i of Some b \<Rightarrow> b | None \<Rightarrow> fallback e i)"

text \<open>
  The part of a record that \<open>Format\<close> writes before it looks at the arguments.
\<close>

definition Format_head :: "JSONFormatter \<Rightarrow> env \<Rightarrow> int \<Rightarrow> string \<Rightarrow> string" where
  \<open>Format_head jf e level msg =
     ''{"_t":"'' @ Now e @ ''", "_l":"'' @ LevelMap e level @ ''", "_n":"'' @ name jf @
     ''", "_m":'' @ structural e (VString msg)\<close>

text \<open>
  The field pairing as the specification words it: the argument list is walked two at a
  time from index \<open>i\<close>; the pair at \<open>i\<close> gets its own key when that is a non-empty string
  and the marker \<open>badKeyAtIndex(i)\<close> otherwise. \<open>set_all\<close> calls \<open>set\<close> once for each pair,
  in order, and stops at a panic.
\<close>

definition field_key :: "env \<Rightarrow> nat \<Rightarrow> gval \<Rightarrow> string" where
  "field_key e i k =
     (case asString k of
        Some key \<Rightarrow> if key = [] then badKeyAtIndex e i else key
      | None \<Rightarrow> badKeyAtIndex e i)"

fun pairs :: "env \<Rightarrow> nat \<Rightarrow> gval list \<Rightarrow> (string \<times> gval) list" where
  "pairs e i (k # v # rest) = (field_key e i k, v) # pairs e (i + 2) rest"
| "pairs e i _ = []"

fun set_all :: "env \<Rightarrow> buffer \<Rightarrow> (string \<times> gval) list \<Rightarrow> panic + buffer" where
  "set_all e buf [] = Inr buf"
| "set_all e buf ((k, v) # ps) =
     (case set_kv e buf k v of Inl p \<Rightarrow> Inl p | Inr buf' \<Rightarrow> set_all e buf' ps)"

text \<open>
  The number of fields of a record beyond \<open>_t\<close>, \<open>_l\<close>, \<open>_n\<close> and \<open>_m\<close>, read off the bytes.
\<close>

definition emitted_fields :: "string \<Rightarrow> nat option" where
  "emitted_fields out =
     (case parse_document out of
        Some (JObject ms) \<Rightarrow> Some (length ms - 4)
      | _ \<Rightarrow> None)"

text \<open>
  The compact text of a JSON value, as \<open>json.Marshal\<close> writes it, and the values whose
  number literals follow the JSON grammar and whose strings and keys are ASCII.
\<close>

fun render :: "json \<Rightarrow> string" where
  "render JNull = ''null''"
| "render (JBool b) = (if b then ''true'' else ''false'')"
| "render (JNumber n) = n"
| "render (JString s) = quote s"
| "render (JArray js) = ''['' @ intercalate '','' (map render js) @ '']''"
| "render (JObject ms) =
     ''{'' @ intercalate '','' (map (\<lambda>(k, j). quote k @ '':'' @ render j) ms) @ ''}''"



definition ascii :: "string \<Rightarrow> bool" where
  "ascii s = list_all (\<lambda>c. (of_char c :: nat) < 0x80) s"

fun wf_json :: "json \<Rightarrow> bool" where
  "wf_json (JNumber n) = (parse_number n = Some (n, []))"
| "wf_json (JString s) = ascii s"
| "wf_json (JArray js) = list_all wf_json js"
| "wf_json (JObject ms) = list_all (\<lambda>(k, j). ascii k \<and> wf_json j) ms"
| "wf_json _ = True"

text \<open>
  The number of objects and arrays open at the deepest point of a JSON value, and the
  values that can stand as a member of the object at the top of a document.
\<close>

fun depth :: "json \<Rightarrow> nat" where
  "depth (JArray js) = Suc (foldr max (map depth js) 0)"
| "depth (JObject ms) = Suc (foldr max (map (\<lambda>(k, j). depth j) ms) 0)"
| "depth _ = 0"

definition wf_value :: "json \<Rightarrow> bool" where
  "wf_value j = (wf_json j \<and> 1 + int (depth j) \<le> maxNestingDepth)"

text \<open>
  A string that can stand between two quotes as it is: ASCII without quote, backslash and
  control character.
\<close>

definition plain_char :: "char \<Rightarrow> bool" where
  \<open>plain_char c =
     (c \<noteq> CHR ''"'' \<and> c \<noteq> CHR 0x5C \<and> 0x20 \<le> (of_char c :: nat) \<and> (of_char c :: nat) < 0x80)\<close>

definition plain :: "string \<Rightarrow> bool" where
  "plain s = list_all plain_char s"

text \<open>
  A field as \<open>set\<close> writes it (comma, space, the key between quotes as it is, colon, the
  value), a sequence of fields, and the whole record with its members.
\<close>

definition field_text :: "string \<times> json \<Rightarrow> string" where
  \<open>field_text m = '', "'' @ fst m @ ''":'' @ render (snd m)\<close>

definition fields_text :: "(string \<times> json) list \<Rightarrow> string" where
  "fields_text ms = concat (map field_text ms)"

definition wf_fields :: "(string \<times> json) list \<Rightarrow> bool" where
  "wf_fields ms = list_all (\<lambda>m. plain (fst m) \<and> wf_value (snd m)) ms"

definition record_text :: "string \<Rightarrow> string \<Rightarrow> string \<Rightarrow> json \<Rightarrow> (string \<times> json) list \<Rightarrow> string" where
  \<open>record_text ts lv nm jm fs =
     ''{"_t":"'' @ ts @ ''", "_l":"'' @ lv @ ''", "_n":"'' @ nm @ ''", "_m":'' @ render jm @
     fields_text fs @ ''}'' @ [CHR 0x0A]\<close>

definition record_members ::
  "string \<Rightarrow> string \<Rightarrow> string \<Rightarrow> json \<Rightarrow> (string \<times> json) list \<Rightarrow> (string \<times> json) list" where
  "record_members ts lv nm jm fs =
     [(''_t'', JString ts), (''_l'', JString lv), (''_n'', JString nm), (''_m'', jm)] @ fs"

text \<open>
  The calls of \<open>set\<close> that \<open>Format\<close> makes for an argument list, and what one call writes:
  \<open>emits e (key, val) ms\<close> says that \<open>set(key, val)\<close> writes the fields \<open>ms\<close> (one field, or
  two for an error value), with plain keys and values that can stand as members.
\<close>

definition emitted :: "env \<Rightarrow> gval list \<Rightarrow> (string \<times> gval) list" where
  "emitted e args =
     (if args = [] then []
      else if even (length args) then pairs e 0 args
      else [(warnImbalancedKey e, VSlice args)])"

definition emits :: "env \<Rightarrow> string \<times> gval \<Rightarrow> (string \<times> json) list \<Rightarrow> bool" where
  "emits e p ms = (set_kv e [] (fst p) (snd p) = Inr (fields_text ms) \<and> wf_fields ms)"

text \<open>
  Auxiliary notions of the proofs about the reader: the characters that can follow a
  number, a value inside an array or an object, and the start of a value; a member of an
  object as \<open>json.Marshal\<close> writes it.
\<close>

definition nd :: "string \<Rightarrow> bool" where
  "nd r = (r \<noteq> [] \<and> \<not> is_digit (hd r) \<and>
           hd r \<notin> {CHR ''.'', CHR ''e'', CHR ''E'', CHR ''+'', CHR ''-''})"

definition follow :: "string \<Rightarrow> bool" where
  "follow r = (r \<noteq> [] \<and> hd r \<in> {CHR '','', CHR '']'', CHR ''}''})"

definition value_start :: "char \<Rightarrow> bool" where
  "value_start c = (\<not> is_ws c \<and> c \<noteq> CHR '']'' \<and> c \<noteq> CHR ''}'')"

definition member_text :: "string \<times> json \<Rightarrow> string" where
  "member_text m = quote (fst m) @ '':'' @ render (snd m)"

text \<open>
  A sample argument list with repeated keys, the fields \<open>Format\<close> writes for it, and the
  members of the record as \<open>json.Unmarshal\<close> stores them.
\<close>

definition dup_args :: "gval list" where
  "dup_args =
     [VString ''_m'', VInt 1,
      VString ''a'', VInt 2,
      VString ''a'', VErr ''e1'' (VPtr (Some (VStruct []))),
      VString ''b'', VErr ''e2'' (VPtr (Some (VStruct [])))]"

definition dup_fields :: "(string \<times> json) list list" where
  "dup_fields =
     [[(''_m'', JNumber ''1'')],
      [(''a'', JNumber ''2'')],
      [(''a'', JString ''e1''), (''callstack'', JString (Stack go_env))],
      [(''b'', JString ''e2''), (''callstack'', JString (Stack go_env))]]"

definition dup_members :: "(string \<times> gjson) list" where
  "dup_members =
     [(''_t'', GString ''2026-01-02T15:04:05''), (''_l'', GString ''INFO''),
      (''_n'', GString ''svc''), (''_m'', GString ''started''),
      (''_m'', GFloat64 0x3FF0000000000000),
      (''a'', GFloat64 0x4000000000000000),
      (''a'', GString ''e1''), (''callstack'', GString (Stack go_env)),
      (''b'', GString ''e2''), (''callstack'', GString (Stack go_env))]"

section \<open>Decimal literals are exact\<close>

lemma below_ten: "d < 10 \<Longrightarrow> d \<in> {0, 1, 2, 3, 4, 5, 6, 7, 8, 9 :: nat}"
  by auto

lemma digit_val_digit_char: "d < 10 \<Longrightarrow> digit_val (digit_char d) = d"
  by (drule below_ten) (auto simp: digit_val_def digit_char_def)

lemma is_digit_digit_char: "d < 10 \<Longrightarrow> is_digit (digit_char d)"
  by (drule below_ten) (auto simp: is_digit_def digit_char_def)

lemma ParseUint_snoc: "ParseUint (s @ [c]) = 10 * ParseUint s + digit_val c"
  by (simp add: ParseUint_def)

lemma ParseUint_FormatUint: "ParseUint (FormatUint n) = n"
proof (induction n rule: FormatUint.induct)
  case (1 n)
  show ?case
  proof (cases "n < 10")
    case True
    then show ?thesis
      by (subst FormatUint.simps) (simp add: ParseUint_def digit_val_digit_char)
  next
    case False
    with 1 have "ParseUint (FormatUint (n div 10)) = n div 10" by simp
    with False show ?thesis
      by (subst FormatUint.simps) (simp add: ParseUint_snoc digit_val_digit_char)
  qed
qed

lemma FormatUint_not_Nil: "FormatUint n \<noteq> []"
  by (subst FormatUint.simps) simp

lemma FormatUint_digits: "c \<in> set (FormatUint n) \<Longrightarrow> is_digit c"
proof (induction n arbitrary: c rule: FormatUint.induct)
  case (1 n)
  show ?case
  proof (cases "n < 10")
    case True
    with "1.prems" show ?thesis
      by (subst (asm) FormatUint.simps) (simp add: is_digit_digit_char)
  next
    case False
    with "1.prems" have "c \<in> set (FormatUint (n div 10)) \<or> c = digit_char (n mod 10)"
      by (subst (asm) FormatUint.simps) auto
    with 1 False show ?thesis by (auto simp: is_digit_digit_char)
  qed
qed

lemma hd_FormatUint_digit: "is_digit (hd (FormatUint n))"
  using FormatUint_not_Nil[of n] FormatUint_digits[of "hd (FormatUint n)" n] by simp

lemma hd_FormatUint_not_minus: "hd (FormatUint n) \<noteq> CHR ''-''"
  using hd_FormatUint_digit[of n] by (auto simp: is_digit_def)

lemma ParseInt_FormatInt: "ParseInt (FormatInt i) = i"
proof (cases "i < 0")
  case True
  then show ?thesis by (simp add: ParseInt_def FormatInt_def ParseUint_FormatUint)
next
  case False
  with hd_FormatUint_not_minus[of "nat i"] FormatUint_not_Nil[of "nat i"] show ?thesis
    by (simp add: ParseInt_def FormatInt_def ParseUint_FormatUint)
qed

lemma digit_char_nonzero: "0 < d \<Longrightarrow> d < 10 \<Longrightarrow> digit_char d \<noteq> CHR ''0''"
  by (drule below_ten) (auto simp: digit_char_def)

lemma hd_FormatUint_nonzero: "0 < n \<Longrightarrow> hd (FormatUint n) \<noteq> CHR ''0''"
proof (induction n rule: FormatUint.induct)
  case (1 n)
  show ?case
  proof (cases "n < 10")
    case True
    with "1.prems" show ?thesis
      by (subst FormatUint.simps) (simp add: digit_char_nonzero)
  next
    case False
    then have "0 < n div 10" by simp
    with 1 False have "hd (FormatUint (n div 10)) \<noteq> CHR ''0''" by simp
    with False FormatUint_not_Nil[of "n div 10"] show ?thesis
      by (subst FormatUint.simps) simp
  qed
qed

lemma FormatUint_zero: "FormatUint 0 = ''0''"
  by (simp add: FormatUint.simps digit_char_def)

lemma takeWhile_FormatUint: "takeWhile is_digit (FormatUint n) = FormatUint n"
  by (simp add: takeWhile_eq_all_conv FormatUint_digits)

lemma dropWhile_FormatUint: "dropWhile is_digit (FormatUint n) = []"
  by (simp add: dropWhile_eq_Nil_conv FormatUint_digits)

lemma parse_number_FormatUint: "parse_number (FormatUint n) = Some (FormatUint n, [])"
proof (cases "n = 0")
  case True
  then show ?thesis
    by (simp add: FormatUint_zero parse_number_def scan_int_def scan_frac_def scan_exp_def starts_def)
next
  case False
  then have "hd (FormatUint n) \<noteq> CHR ''0''" by (simp add: hd_FormatUint_nonzero)
  with hd_FormatUint_not_minus[of n] hd_FormatUint_digit[of n] FormatUint_not_Nil[of n]
  show ?thesis
    by (simp add: parse_number_def scan_int_def scan_frac_def scan_exp_def starts_def
        takeWhile_FormatUint dropWhile_FormatUint)
qed

lemma parse_number_FormatInt: "parse_number (FormatInt i) = Some (FormatInt i, [])"
proof (cases "i < 0")
  case False
  then show ?thesis by (simp add: FormatInt_def parse_number_FormatUint)
next
  case True
  then have "0 < nat (- i)" by simp
  then have "hd (FormatUint (nat (- i))) \<noteq> CHR ''0''" by (rule hd_FormatUint_nonzero)
  with True hd_FormatUint_digit[of "nat (- i)"] FormatUint_not_Nil[of "nat (- i)"]
  show ?thesis
    by (simp add: FormatInt_def parse_number_def scan_int_def scan_frac_def scan_exp_def starts_def
        takeWhile_FormatUint dropWhile_FormatUint)
qed

section \<open>Escaping ASCII strings\<close>

lemma escape_string_Nil: "escape_string [] = []"
  by (simp add: escape_string.simps)

lemma escape_string_ascii:
  "(of_char c :: nat) < 0x80 \<Longrightarrow> escape_string (c # s) = escape c @ escape_string s"
  by (subst escape_string.simps) simp

lemma escape_string_concat: "ascii s \<Longrightarrow> escape_string s = concat (map escape s)"
  by (induction s) (simp_all add: ascii_def escape_string_Nil escape_string_ascii)

lemmas quote_eval = quote_def escape_string_Nil escape_string_ascii escape_def

section \<open>What \<open>appendValue\<close> writes\<close>

lemma appendValue_structural:
  assumes "val \<noteq> VNil" "\<not> primitive_kind (Kind (deref val))" "asError val = None"
    and "deref val = Val i"
  shows "appendValue e buf val = Inr (buf @ structural e i)"
  using assms
  by (simp add: appendValue.simps[of e buf val] primitive_kind_def deref_def Let_def
      structural_def fallback_def split: option.splits)

lemma appendValue_VString: "appendValue e buf (VString s) = Inr (buf @ structural e (VString s))"
  by (rule appendValue_structural) (simp_all add: primitive_kind_def deref_def ValueOf_def)

lemma appendValue_error:
  assumes "asError val = Some t" "\<not> primitive_kind (Kind (deref val))"
  shows \<open>appendValue e buf val =
     Inr (writeString e buf t @ '', "'' @ callstackKey e @ ''":'' @ structural e (VString (Stack e)))\<close>
proof -
  from assms(1) have "val \<noteq> VNil" by auto
  with assms show ?thesis
    by (simp add: appendValue.simps[of e buf val] primitive_kind_def deref_def Let_def
        writeError.simps set_kv.simps appendValue_VString)
qed

lemma appendValue_nil_pointer:
  assumes "Kind (ValueOf val) = KPtr" "Elem (ValueOf val) = Zero" "asError val = None"
  shows "appendValue e buf val = Inl ZeroValueInterface"
proof -
  from assms(1) have "val \<noteq> VNil" by (auto simp: ValueOf_def)
  with assms show ?thesis
    by (simp add: appendValue.simps[of e buf val] Let_def)
qed

lemma deref_direct: "kindOf v \<noteq> KPtr \<Longrightarrow> kindOf v \<noteq> KInterface \<Longrightarrow> deref v = Val v"
  by (auto simp: deref_def ValueOf_def)

lemma deref_pointer: "deref (VPtr (Some v)) = Val v"
  by (simp add: deref_def ValueOf_def)

lemma appendValue_deref:
  "val \<noteq> VNil \<Longrightarrow> appendValue e buf val =
     (let value = deref val; kind = Kind value
      in if kind = KBool then
           (if rBool value then Inr (buf @ ''true'') else Inr (buf @ ''false''))
         else if kind \<in> {KInt, KInt8, KInt16, KInt32, KInt64} then
           Inr (buf @ FormatInt (rInt value))
         else if kind \<in> {KUint, KUint8, KUint16, KUint32, KUint64, KUintptr} then
           Inr (buf @ FormatUint (rUint value))
         else if kind = KFloat32 then Inr (buf @ FormatFloat32 e (rFloat32 value))
         else if kind = KFloat64 then Inr (buf @ FormatFloat64 e (rFloat64 value))
         else (case asError val of
                 Some err \<Rightarrow> writeError e buf err
               | None \<Rightarrow>
                  (case Interface value of
                     Inl p \<Rightarrow> Inl p
                   | Inr i \<Rightarrow> Inr (buf @ structural e i))))"
  by (simp add: appendValue.simps[of e buf val] deref_def Let_def structural_def fallback_def
      split: option.splits sum.splits)

lemma appendValue_bool:
  "kindOf v = KBool \<Longrightarrow> val = v \<or> val = VPtr (Some v) \<Longrightarrow>
   appendValue e buf val = Inr (buf @ (if boolOf v then ''true'' else ''false''))"
proof -
  assume k: "kindOf v = KBool" and "val = v \<or> val = VPtr (Some v)"
  then have "val \<noteq> VNil" "deref val = Val v"
    by (auto simp: deref_direct deref_pointer)
  with k show ?thesis
    by (simp add: appendValue_deref Let_def)
qed

lemma appendValue_signed:
  "kindOf v \<in> {KInt, KInt8, KInt16, KInt32, KInt64} \<Longrightarrow> val = v \<or> val = VPtr (Some v) \<Longrightarrow>
   appendValue e buf val = Inr (buf @ FormatInt (intOf v))"
proof -
  assume k: "kindOf v \<in> {KInt, KInt8, KInt16, KInt32, KInt64}" and "val = v \<or> val = VPtr (Some v)"
  then have "val \<noteq> VNil" "deref val = Val v"
    by (auto simp: deref_direct deref_pointer)
  with k show ?thesis
    by (simp add: appendValue_deref Let_def) auto
qed

lemma appendValue_unsigned:
  "kindOf v \<in> {KUint, KUint8, KUint16, KUint32, KUint64, KUintptr} \<Longrightarrow>
   val = v \<or> val = VPtr (Some v) \<Longrightarrow>
   appendValue e buf val = Inr (buf @ FormatUint (uintOf v))"
proof -
  assume k: "kindOf v \<in> {KUint, KUint8, KUint16, KUint32, KUint64, KUintptr}"
    and "val = v \<or> val = VPtr (Some v)"
  then have "val \<noteq> VNil" "deref val = Val v"
    by (auto simp: deref_direct deref_pointer)
  with k show ?thesis
    by (simp add: appendValue_deref Let_def) auto
qed

section \<open>The loop of \<open>Format\<close> is the pairing\<close>

lemma Format_unfold:
  \<open>Format jf e buf level msg args =
     (case (if args = [] then Inr (buf @ Format_head jf e level msg)
            else if even (length args) then Format_loop e args 0 (buf @ Format_head jf e level msg)
            else set_kv e (buf @ Format_head jf e level msg) (warnImbalancedKey e) (VSlice args)) of
        Inl p \<Rightarrow> Inl p
      | Inr b \<Rightarrow> Inr (b @ ''}'' @ [CHR 0x0A]))\<close>
  by (simp add: Format_def Format_head_def appendValue_VString Let_def even_iff_mod_2_eq_zero)

lemma FormatHex_47b0e0: "FormatHex 0x47b0e0 = ''47b0e0''"
  by (simp add: FormatHex.simps hex_char_def)

lemma Format_loop_done: "length args \<le> i \<Longrightarrow> Format_loop e args i buf = Inr buf"
  by (subst Format_loop.simps) simp

lemma Format_loop_pairs:
  "i \<le> length args \<Longrightarrow> even (length args - i) \<Longrightarrow>
   Format_loop e args i buf = set_all e buf (pairs e i (drop i args))"
proof (induction e args i buf rule: Format_loop.induct)
  case (1 e args i buf)
  show ?case
  proof (cases "i < length args")
    case False
    with "1.prems" show ?thesis by (simp add: Format_loop_done)
  next
    case True
    with "1.prems" have i1: "i + 1 < length args"
      by (metis Suc_eq_plus1 Suc_lessI diff_Suc_1 diff_diff_cancel even_Suc less_imp_le_nat
          odd_one zero_less_diff diff_is_0_eq' even_zero less_or_eq_imp_le not_less_eq_eq)
    then have d: "drop i args = args ! i # args ! (i + 1) # drop (i + 2) args"
      using True by (metis Cons_nth_drop_Suc Suc_eq_plus1 add_2_eq_Suc')
    from i1 "1.prems" have ev: "i + 2 \<le> length args" "even (length args - (i + 2))"
      by auto
    have step: "Format_loop e args i buf =
        (case set_kv e buf (field_key e i (args ! i)) (args ! (i + 1)) of
           Inl p \<Rightarrow> Inl p
         | Inr buf' \<Rightarrow> Format_loop e args (i + 2) buf')"
      using True i1
      by (subst Format_loop.simps) (simp add: index_def field_key_def split: option.splits)
    show ?thesis
    proof (cases "set_kv e buf (field_key e i (args ! i)) (args ! (i + 1))")
      case (Inl p)
      then show ?thesis by (simp add: step d)
    next
      case (Inr buf')
      have k: "(case asString (args ! i) of
                  None \<Rightarrow> set_kv e buf (badKeyAtIndex e i) (args ! (i + 1))
                | Some key \<Rightarrow> if key = [] then set_kv e buf (badKeyAtIndex e i) (args ! (i + 1))
                              else set_kv e buf key (args ! (i + 1))) = Inr buf'"
        using Inr by (auto simp: field_key_def split: option.splits)
      have "Format_loop e args (i + 2) buf' = set_all e buf' (pairs e (i + 2) (drop (i + 2) args))"
        using "1.IH"[OF True _ _ k ev] True i1 by (simp add: index_def)
      with Inr show ?thesis by (simp add: step d)
    qed
  qed
qed

lemma Format_even:
  assumes "even (length args)"
  shows \<open>Format jf e buf level msg args =
     (case set_all e (buf @ Format_head jf e level msg) (pairs e 0 args) of
        Inl p \<Rightarrow> Inl p
      | Inr b \<Rightarrow> Inr (b @ ''}'' @ [CHR 0x0A]))\<close>
proof (cases "args = []")
  case True
  then show ?thesis by (simp add: Format_unfold)
next
  case False
  with assms show ?thesis
    using Format_loop_pairs[of 0 args e] by (simp add: Format_unfold)
qed

lemma Format_odd:
  assumes "odd (length args)"
  shows \<open>Format jf e buf level msg args =
     Inr (buf @ Format_head jf e level msg @ '', "'' @ warnImbalancedKey e @ ''":'' @
          structural e (VSlice args) @ ''}'' @ [CHR 0x0A])\<close>
proof -
  from assms have "args \<noteq> []" by auto
  moreover have "appendValue e b (VSlice args) = Inr (b @ structural e (VSlice args))" for b
    by (rule appendValue_structural) (simp_all add: primitive_kind_def deref_def ValueOf_def)
  ultimately show ?thesis
    using assms by (simp add: Format_unfold set_kv.simps)
qed

lemma appendValue_VInt: "appendValue e buf (VInt w) = Inr (buf @ FormatInt (sint w))"
  by (simp add: appendValue.simps Let_def ValueOf_def)

lemmas Format_eval =
  Format_even Format_odd Format_head_def field_key_def set_kv.simps appendValue_VInt
  structural_def fallback_def go_env_def quote_eval hex_char_def
  FormatInt_def FormatUint.simps digit_char_def

lemma length_pairs: "length (pairs e i args) = length args div 2"
  by (induction e i args rule: pairs.induct) simp_all

lemma nth_pairs:
  "2 * j + 1 < length args \<Longrightarrow>
   pairs e i args ! j = (field_key e (i + 2 * j) (args ! (2 * j)), args ! (2 * j + 1))"
proof (induction e i args arbitrary: j rule: pairs.induct)
  case (1 e i k v rest)
  then show ?case by (cases j) simp_all
qed simp_all

lemma appendValue_VBool: \<open>appendValue e buf (VBool b) = Inr (buf @ (if b then ''true'' else ''false''))\<close>
  by (simp add: appendValue.simps Let_def ValueOf_def)

section \<open>The reader inverts the writer\<close>

subsection \<open>Strings\<close>

lemma parse_chars_Nil [simp]: "parse_chars [] = None"
  by (simp add: parse_chars.simps)

lemma parse_chars_quote: \<open>parse_chars (CHR ''"'' # r) = Some ([], r)\<close>
  by (simp add: parse_chars.simps)

lemma parse_chars_plain_char:
  "plain_char c \<Longrightarrow>
   parse_chars (c # r) = (case parse_chars r of None \<Rightarrow> None | Some (cs, r') \<Rightarrow> Some (c # cs, r'))"
  by (subst parse_chars.simps) (simp add: plain_char_def split: option.splits)

lemma parse_chars_plain:
  \<open>plain k \<Longrightarrow> parse_chars (k @ CHR ''"'' # rest) = Some (k, rest)\<close>
  by (induction k) (simp_all add: plain_def parse_chars_quote parse_chars_plain_char)

lemma below_16:
  "d < 16 \<Longrightarrow> d \<in> {0, 1, 2, 3, 4, 5, 6, 7, 8, 9, 10, 11, 12, 13, 14, 15 :: nat}"
  by simp arith

lemma hex_val_hex_char: "d < 16 \<Longrightarrow> hex_val (hex_char d) = Some d"
  by (drule below_16) (auto simp: hex_val_def hex_char_def)

lemma hex_val_zero: "hex_val (CHR ''0'') = Some 0"
  by (simp add: hex_val_def)

lemma unicode_escape_ascii:
  assumes "b < 0x80"
  shows "unicode_escape (CHR ''0'' # CHR ''0'' # hex_char (b div 16) # hex_char (b mod 16) # r) =
         Some ([char_of b], r)"
proof -
  from assms have "b div 16 < 16" "b mod 16 < 16" by auto
  then have "getu4 (CHR ''0'' # CHR ''0'' # hex_char (b div 16) # hex_char (b mod 16) # r) = Some b"
    by (simp add: getu4_def hex_val_hex_char hex_val_zero)
  with assms show ?thesis
    by (simp add: unicode_escape_def is_surrogate_def utf8_encode_def)
qed

lemma parse_chars_backslash:
  "d \<noteq> CHR ''u'' \<Longrightarrow> unescape d = Some x \<Longrightarrow>
   parse_chars (CHR 0x5C # d # r) =
     (case parse_chars r of None \<Rightarrow> None | Some (cs, r') \<Rightarrow> Some (x # cs, r'))"
  by (subst parse_chars.simps) (simp split: option.splits)

lemma parse_chars_unicode:
  "unicode_escape u = Some (x, r) \<Longrightarrow>
   parse_chars (CHR 0x5C # CHR ''u'' # u) =
     (case parse_chars r of None \<Rightarrow> None | Some (cs, r') \<Rightarrow> Some (x @ cs, r'))"
  by (subst parse_chars.simps) (simp split: option.splits)

lemma parse_chars_escape:
  assumes lo: "(of_char c :: nat) < 0x80"
  shows "parse_chars (escape c @ r) =
     (case parse_chars r of None \<Rightarrow> None | Some (cs, r') \<Rightarrow> Some (c # cs, r'))"
proof -
  show ?thesis
  proof (cases \<open>c = CHR ''"'' \<or> c = CHR 0x5C\<close>)
    case True
    with lo show ?thesis
      by (auto simp: escape_def parse_chars_backslash[where x = c] unescape_def)
  next
    case nq: False
    show ?thesis
    proof (cases "c \<in> {CHR 0x08, CHR 0x0C, CHR 0x0A, CHR 0x0D, CHR 0x09}")
      case True
      with lo nq show ?thesis
        by (auto simp: escape_def parse_chars_backslash[where x = c] unescape_def)
    next
      case ns: False
      show ?thesis
      proof (cases "(of_char c :: nat) < 0x20 \<or> c = CHR ''<'' \<or> c = CHR ''>'' \<or> c = CHR ''&''")
        case True
        from lo have "unicode_escape (CHR ''0'' # CHR ''0'' # hex_char (of_char c div 16) #
                        hex_char (of_char c mod 16) # r) = Some ([c], r)"
          using unicode_escape_ascii[of "of_char c" r] by simp
        with lo nq ns True show ?thesis
          by (simp add: escape_def parse_chars_unicode split: option.splits)
      next
        case False
        with lo nq have "plain_char c" by (auto simp: plain_char_def)
        with lo nq ns False show ?thesis by (simp add: escape_def parse_chars_plain_char)
      qed
    qed
  qed
qed

lemma parse_chars_quoted:
  \<open>ascii s \<Longrightarrow> parse_chars (escape_string s @ CHR ''"'' # rest) = Some (s, rest)\<close>
  by (induction s)
     (simp_all add: ascii_def escape_string_Nil escape_string_ascii parse_chars_quote
       parse_chars_escape)

subsection \<open>Numbers\<close>

lemma takeWhile_digits_append:
  "nd rest \<Longrightarrow> takeWhile is_digit (s @ rest) = takeWhile is_digit s"
  by (induction s) (auto simp: nd_def neq_Nil_conv)

lemma dropWhile_digits_append:
  "nd rest \<Longrightarrow> dropWhile is_digit (s @ rest) = dropWhile is_digit s @ rest"
  by (induction s) (auto simp: nd_def neq_Nil_conv)

lemma starts_append: "s \<noteq> [] \<Longrightarrow> starts c (s @ r) = starts c s"
  by (simp add: starts_def)

lemma starts_Nil [simp]: "\<not> starts c []"
  by (simp add: starts_def)

lemma scan_int_append:
  "scan_int s = Some (t, r) \<Longrightarrow> nd rest \<Longrightarrow> scan_int (s @ rest) = Some (t, r @ rest)"
  by (cases s)
     (auto simp: scan_int_def starts_def takeWhile_digits_append dropWhile_digits_append
           split: if_splits)

lemma scan_digits1_append:
  "scan_digits1 s = Some (t, r) \<Longrightarrow> nd rest \<Longrightarrow> scan_digits1 (s @ rest) = Some (t, r @ rest)"
  by (cases s)
     (auto simp: scan_digits1_def takeWhile_digits_append dropWhile_digits_append
           split: if_splits)

lemma scan_frac_append:
  "scan_frac s = Some (t, r) \<Longrightarrow> nd rest \<Longrightarrow> scan_frac (s @ rest) = Some (t, r @ rest)"
proof (cases s)
  case Nil
  then show "scan_frac s = Some (t, r) \<Longrightarrow> nd rest \<Longrightarrow> ?thesis"
    by (auto simp: scan_frac_def starts_def nd_def)
next
  case (Cons c cs)
  then show "scan_frac s = Some (t, r) \<Longrightarrow> nd rest \<Longrightarrow> ?thesis"
    by (auto simp: scan_frac_def starts_def scan_digits1_append split: if_splits option.splits)
qed

lemma scan_exp_append:
  "scan_exp s = Some (t, r) \<Longrightarrow> nd rest \<Longrightarrow> scan_exp (s @ rest) = Some (t, r @ rest)"
proof (cases s)
  case Nil
  then show "scan_exp s = Some (t, r) \<Longrightarrow> nd rest \<Longrightarrow> ?thesis"
    by (auto simp: scan_exp_def starts_def nd_def)
next
  case (Cons c cs)
  assume a: "scan_exp s = Some (t, r)" and n: "nd rest"
  show ?thesis
  proof (cases "c = CHR ''e'' \<or> c = CHR ''E''")
    case False
    with a Cons show ?thesis by (auto simp: scan_exp_def starts_def)
  next
    case True
    define sg where "sg = (if starts CHR ''+'' cs \<or> starts CHR ''-'' cs then [hd cs] else [])"
    define r' where "r' = (if starts CHR ''+'' cs \<or> starts CHR ''-'' cs then tl cs else cs)"
    from a Cons True obtain ds where ds: "scan_digits1 r' = Some (ds, r)" "t = c # sg @ ds"
      by (auto simp: scan_exp_def starts_def sg_def r'_def Let_def split: if_splits option.splits)
    from ds(1) have "r' \<noteq> []" by (auto simp: scan_digits1_def)
    then have "cs \<noteq> []" by (auto simp: r'_def)
    have e: "(if starts CHR ''+'' (cs @ rest) \<or> starts CHR ''-'' (cs @ rest)
              then ([hd (cs @ rest)], tl (cs @ rest)) else ([], cs @ rest)) = (sg, r' @ rest)"
      using \<open>cs \<noteq> []\<close> by (auto simp: starts_def sg_def r'_def)
    show ?thesis
      using True Cons ds scan_digits1_append[OF ds(1) n] e
      by (auto simp: scan_exp_def starts_def Let_def)
  qed
qed

lemma parse_number_append:
  assumes "parse_number s = Some (t, r)" and "nd rest"
  shows "parse_number (s @ rest) = Some (t, r @ rest)"
proof -
  define sg where "sg = (if starts CHR ''-'' s then ''-'' else [])"
  define s0 where "s0 = (if starts CHR ''-'' s then tl s else s)"
  from assms(1) obtain ip r1 fp r2 ep where
    p: "scan_int s0 = Some (ip, r1)" "scan_frac r1 = Some (fp, r2)" "scan_exp r2 = Some (ep, r)"
       "t = sg @ ip @ fp @ ep"
    by (auto simp: parse_number_def sg_def s0_def split: if_splits option.splits)
  from p(1) have "s0 \<noteq> []" by (auto simp: scan_int_def)
  then have "s \<noteq> []" by (auto simp: s0_def)
  then have e: "(if starts CHR ''-'' (s @ rest) then (''-'', tl (s @ rest)) else ([], s @ rest)) =
                (sg, s0 @ rest)"
    by (auto simp: starts_def sg_def s0_def)
  show ?thesis
    using e p scan_int_append[OF p(1) assms(2)] scan_frac_append[OF p(2) assms(2)]
      scan_exp_append[OF p(3) assms(2)]
    by (simp add: parse_number_def)
qed

subsection \<open>Values\<close>

lemma follow_nd: "follow r \<Longrightarrow> nd r"
  by (auto simp: follow_def nd_def is_digit_def)

lemma follow_skip_ws: "follow r \<Longrightarrow> skip_ws r = r"
  by (cases r) (auto simp: follow_def skip_ws_def is_ws_def)

lemma number_hd:
  assumes "parse_number n = Some (t, r)"
  shows "n \<noteq> [] \<and> (hd n = CHR ''-'' \<or> is_digit (hd n))"
proof -
  from assms obtain ip r1 where
    "scan_int (if starts CHR ''-'' n then tl n else n) = Some (ip, r1)"
    by (auto simp: parse_number_def split: if_splits option.splits)
  then show ?thesis
    by (cases "starts CHR ''-'' n") (auto simp: scan_int_def starts_def is_digit_def split: if_splits)
qed

lemma render_start: "wf_json j \<Longrightarrow> render j \<noteq> [] \<and> value_start (hd (render j))"
proof (cases j)
  case (JNumber n)
  assume "wf_json j"
  with JNumber number_hd[of n n "[]"] show ?thesis
    by (auto simp: value_start_def is_ws_def is_digit_def)
qed (auto simp: value_start_def is_ws_def quote_def)

lemma skip_ws_value_start: "s \<noteq> [] \<Longrightarrow> value_start (hd s) \<Longrightarrow> skip_ws (s @ r) = s @ r"
  by (cases s) (auto simp: skip_ws_def value_start_def)

lemma parse_value_null: "parse_value d (''null'' @ rest) = Some (JNull, rest)"
  by (subst parse_value.simps) (simp add: is_prefix_def)

lemma parse_value_true: "parse_value d (''true'' @ rest) = Some (JBool True, rest)"
  by (subst parse_value.simps) (simp add: is_prefix_def)

lemma parse_value_false: "parse_value d (''false'' @ rest) = Some (JBool False, rest)"
  by (subst parse_value.simps) (simp add: is_prefix_def)

lemma parse_value_string: "ascii s \<Longrightarrow> parse_value d (quote s @ rest) = Some (JString s, rest)"
  by (subst parse_value.simps) (simp add: quote_def parse_chars_quoted)

lemma parse_value_number:
  assumes "parse_number n = Some (n, [])" and "nd rest"
  shows "parse_value d (n @ rest) = Some (JNumber n, rest)"
proof -
  from number_hd[OF assms(1)] obtain c cs where n: "n = c # cs" "c = CHR ''-'' \<or> is_digit c"
    by (cases n) auto
  from n(2) have ne: \<open>c \<noteq> CHR ''{''\<close> \<open>c \<noteq> CHR ''[''\<close> \<open>c \<noteq> CHR ''"''\<close>
    \<open>c \<noteq> CHR ''t''\<close> \<open>c \<noteq> CHR ''f''\<close> \<open>c \<noteq> CHR ''n''\<close>
    by (auto simp: is_digit_def)
  have p: "parse_number (c # cs @ rest) = Some (c # cs, rest)"
    using parse_number_append[OF assms] n(1) by simp
  show ?thesis
    unfolding n(1)
    by (subst parse_value.simps) (simp add: is_prefix_def ne p)
qed

lemma skip_ws_not_ws: "s \<noteq> [] \<Longrightarrow> \<not> is_ws (hd s) \<Longrightarrow> skip_ws s = s"
  by (cases s) (auto simp: skip_ws_def)

lemma parse_elems_render:
  assumes "js \<noteq> []"
    and "\<And>j rest. j \<in> set js \<Longrightarrow> follow rest \<Longrightarrow> parse_value d (render j @ rest) = Some (j, rest)"
    and "\<And>j. j \<in> set js \<Longrightarrow> wf_json j"
  shows "parse_elems d (intercalate '','' (map render js) @ CHR '']'' # rest) = Some (js, rest)"
  using assms
proof (induction js rule: list_nonempty_induct)
  case (single x)
  have "parse_value d (render x @ CHR '']'' # rest) = Some (x, CHR '']'' # rest)"
    using single(1)[of x "CHR '']'' # rest"] by (simp add: follow_def)
  then show ?case
    by (subst parse_elems.simps) (simp add: skip_ws_def is_ws_def starts_def)
next
  case (cons x xs)
  obtain y ys where xs: "xs = y # ys" using cons(1) by (cases xs) auto
  let ?T = "intercalate '','' (map render xs) @ CHR '']'' # rest"
  have pv: "parse_value d (render x @ CHR '','' # ?T) = Some (x, CHR '','' # ?T)"
    using cons(3)[of x "CHR '','' # ?T"] by (simp add: follow_def)
  have "wf_json y" using cons(4) xs by simp
  from render_start[OF this] have "skip_ws ?T = ?T"
    using xs by (cases ys) (simp_all add: skip_ws_value_start)
  moreover have "parse_elems d ?T = Some (xs, rest)"
    using cons by simp
  ultimately show ?case
    using pv xs
    by (subst parse_elems.simps) (simp add: skip_ws_def is_ws_def starts_def)
qed

lemma member_text_start: \<open>\<exists>t. member_text m = CHR ''"'' # t\<close>
  by (simp add: member_text_def quote_def)

lemma parse_members_step:
  assumes pv: "parse_value d (render v @ R) = Some (v, R)" and wf: "wf_json v" and fo: "follow R"
    and k: "ascii k"
  shows "parse_members d (member_text (k, v) @ R) =
     (if hd R = CHR ''}'' then Some ([(k, v)], tl R)
      else if hd R = CHR '','' then
        (case parse_members d (skip_ws (tl R)) of
           None \<Rightarrow> None
         | Some (ms, r4) \<Rightarrow> Some ((k, v) # ms, r4))
      else None)"
proof -
  from render_start[OF wf] have sk: "skip_ws (render v @ R) = render v @ R"
    by (simp add: skip_ws_value_start)
  have pc: "parse_chars (escape_string k @ CHR 0x22 # CHR '':'' # render v @ R)
              = Some (k, CHR '':'' # render v @ R)"
    using k by (rule parse_chars_quoted)
  have skc: "skip_ws (CHR '':'' # render v @ R) = CHR '':'' # render v @ R"
    by (simp add: skip_ws_def is_ws_def)
  from fo have R: "R \<noteq> []" "skip_ws R = R"
    by (auto simp: follow_def follow_skip_ws)
  have len: "length R - Suc 0 < Suc (Suc (Suc (length (escape_string k) + (length (render v) + length R))))"
    by simp
  show ?thesis
    by (subst parse_members.simps)
       (simp add: member_text_def quote_def starts_def pc skc sk pv R len)
qed

lemma parse_members_render:
  assumes "ms \<noteq> []"
    and "\<And>m rest. m \<in> set ms \<Longrightarrow> follow rest \<Longrightarrow>
           parse_value d (render (snd m) @ rest) = Some (snd m, rest)"
    and "\<And>m. m \<in> set ms \<Longrightarrow> wf_json (snd m)"
    and "\<And>m. m \<in> set ms \<Longrightarrow> ascii (fst m)"
  shows "parse_members d (intercalate '','' (map member_text ms) @ CHR ''}'' # rest) = Some (ms, rest)"
  using assms
proof (induction ms rule: list_nonempty_induct)
  case (single m)
  obtain k v where m: "m = (k, v)" by (cases m)
  have pv: "parse_value d (render v @ CHR ''}'' # rest) = Some (v, CHR ''}'' # rest)"
    using single(1)[of m "CHR ''}'' # rest"] m by (simp add: follow_def)
  have "wf_json v" using single(2)[of m] m by simp
  moreover have "ascii k" using single(3)[of m] m by simp
  ultimately show ?case
    using parse_members_step[OF pv, of k] by (simp add: m follow_def)
next
  case (cons m ms)
  obtain k v where m: "m = (k, v)" by (cases m)
  obtain m' ms' where ms: "ms = m' # ms'" using cons(1) by (cases ms) auto
  define T where "T = intercalate '','' (map member_text ms) @ CHR ''}'' # rest"
  have pv: "parse_value d (render v @ CHR '','' # T) = Some (v, CHR '','' # T)"
    using cons(3)[of m "CHR '','' # T"] m by (simp add: follow_def)
  have wf: "wf_json v" using cons(4)[of m] m by simp
  have ak: "ascii k" using cons(5)[of m] m by simp
  obtain t where "member_text m' = CHR 0x22 # t"
    using member_text_start[of m'] by auto
  then have "\<exists>t'. T = CHR 0x22 # t'"
    using ms by (cases ms') (simp_all add: T_def)
  then have skT: "skip_ws T = T"
    by (auto simp: skip_ws_def is_ws_def)
  have ih: "parse_members d T = Some (ms, rest)"
    using cons by (simp add: T_def)
  have e: "intercalate '','' (map member_text (m # ms)) @ CHR ''}'' # rest =
           member_text (k, v) @ CHR '','' # T"
    using ms by (simp add: T_def m)
  show ?case
    unfolding e using parse_members_step[OF pv wf _ ak] by (simp add: follow_def skT ih m)
qed

lemma render_JObject:
  "render (JObject ms) = ''{'' @ intercalate '','' (map member_text ms) @ ''}''"
proof -
  have "(\<lambda>(k, j). quote k @ '':'' @ render j) = member_text"
    by (auto simp: member_text_def fun_eq_iff)
  then show ?thesis by simp
qed

lemma intercalate_start:
  "xs \<noteq> [] \<Longrightarrow> hd xs \<noteq> [] \<Longrightarrow>
   intercalate sep xs @ r \<noteq> [] \<and> hd (intercalate sep xs @ r) = hd (hd xs)"
  by (cases "(sep, xs)" rule: intercalate.cases) auto

lemma foldr_max_ge: "x \<in> set xs \<Longrightarrow> x \<le> foldr max xs (0::nat)"
  by (induction xs) (auto simp: max_def)

lemma depth_elem: "j \<in> set js \<Longrightarrow> depth j < depth (JArray js)"
  using foldr_max_ge[of "depth j" "map depth js"] by (simp add: less_Suc_eq_le)

lemma depth_member: "m \<in> set ms \<Longrightarrow> depth (snd m) < depth (JObject ms)"
  using foldr_max_ge[of "depth (snd m)" "map (\<lambda>(k, j). depth j) ms"]
  by (force simp: less_Suc_eq_le case_prod_beta)

lemma parse_value_render:
  "wf_json j \<Longrightarrow> d + int (depth j) \<le> maxNestingDepth \<Longrightarrow> follow rest \<Longrightarrow>
   parse_value d (render j @ rest) = Some (j, rest)"
proof (induction j arbitrary: d rest)
  case JNull
  then show ?case using parse_value_null by simp
next
  case (JBool b)
  then show ?case using parse_value_true parse_value_false by simp
next
  case (JNumber n)
  then show ?case using parse_value_number[of n rest] follow_nd by simp
next
  case (JString s)
  then show ?case using parse_value_string by simp
next
  case (JArray js)
  from JArray(3) have dp: "\<not> maxNestingDepth < d + 1" by simp
  show ?case
  proof (cases "js = []")
    case True
    with dp show ?thesis
      by (subst parse_value.simps) (simp add: skip_ws_def is_ws_def starts_def)
  next
    case False
    define T where "T = intercalate '','' (map render js) @ CHR '']'' # rest"
    from JArray(2) have wf: "\<And>j. j \<in> set js \<Longrightarrow> wf_json j"
      by (simp add: list_all_iff)
    have ih: "parse_value (d + 1) (render j @ r) = Some (j, r)"
      if "j \<in> set js" "follow r" for j r
    proof -
      from depth_elem[OF that(1)] JArray(3) have "d + 1 + int (depth j) \<le> maxNestingDepth"
        by linarith
      with JArray(1)[OF that(1) wf[OF that(1)] _ that(2)] show ?thesis by simp
    qed
    have pe: "parse_elems (d + 1) T = Some (js, rest)"
      unfolding T_def using False ih wf by (intro parse_elems_render) auto
    from False wf have "wf_json (hd js)" by simp
    from render_start[OF this] False
    have "T \<noteq> [] \<and> hd T = hd (render (hd js))"
      unfolding T_def using intercalate_start[of "map render js" "'',''" "CHR '']'' # rest"]
      by (simp add: hd_map)
    with render_start[OF \<open>wf_json (hd js)\<close>] have T: "T \<noteq> []" "value_start (hd T)" by simp_all
    then have sk: "skip_ws T = T" "\<not> starts CHR '']'' T"
      by (auto simp: skip_ws_not_ws value_start_def starts_def)
    have "render (JArray js) @ rest = CHR ''['' # T" by (simp add: T_def)
    then show ?thesis
      using dp by (subst parse_value.simps) (simp add: sk pe)
  qed
next
  case (JObject ms)
  from JObject(3) have dp: "\<not> maxNestingDepth < d + 1" by simp
  show ?case
  proof (cases "ms = []")
    case True
    with dp show ?thesis
      by (subst parse_value.simps) (simp add: skip_ws_def is_ws_def starts_def)
  next
    case False
    define T where "T = intercalate '','' (map member_text ms) @ CHR ''}'' # rest"
    from JObject(2) have wf: "\<And>m. m \<in> set ms \<Longrightarrow> wf_json (snd m)"
      by (auto simp: list_all_iff)
    from JObject(2) have ak: "\<And>m. m \<in> set ms \<Longrightarrow> ascii (fst m)"
      by (auto simp: list_all_iff)
    have ih: "parse_value (d + 1) (render (snd m) @ r) = Some (snd m, r)"
      if "m \<in> set ms" "follow r" for m r
    proof -
      from depth_member[OF that(1)] JObject(3)
      have "d + 1 + int (depth (snd m)) \<le> maxNestingDepth"
        by linarith
      with JObject(1)[of m "snd m" "d + 1" r] that wf[of m] show ?thesis by (cases m) auto
    qed
    have pm: "parse_members (d + 1) T = Some (ms, rest)"
      unfolding T_def using False ih wf ak by (intro parse_members_render) auto
    obtain t where "member_text (hd ms) = CHR 0x22 # t"
      using member_text_start[of "hd ms"] by auto
    with False have "\<exists>t'. T = CHR 0x22 # t'"
      unfolding T_def by (cases "('','', map member_text ms)" rule: intercalate.cases) auto
    then have sk: "skip_ws T = T" "\<not> starts CHR ''}'' T"
      by (auto simp: skip_ws_def is_ws_def starts_def)
    have "render (JObject ms) @ rest = CHR ''{'' # T"
      by (simp add: T_def render_JObject del: render.simps)
    then show ?thesis
      using dp by (subst parse_value.simps) (simp add: sk pm)
  qed
qed

subsection \<open>Records\<close>

lemma parse_members_raw_step:
  assumes k: "plain k" and pv: "parse_value d (vt @ R) = Some (v, R)"
    and vt: "vt \<noteq> []" "value_start (hd vt)" and fo: "follow R"
  shows "parse_members d (CHR 0x22 # k @ CHR 0x22 # CHR '':'' # vt @ R) =
     (if hd R = CHR ''}'' then Some ([(k, v)], tl R)
      else if hd R = CHR '','' then
        (case parse_members d (skip_ws (tl R)) of
           None \<Rightarrow> None
         | Some (ms, r4) \<Rightarrow> Some ((k, v) # ms, r4))
      else None)"
proof -
  from vt have sk: "skip_ws (vt @ R) = vt @ R"
    by (simp add: skip_ws_value_start)
  have pc: "parse_chars (k @ CHR 0x22 # CHR '':'' # vt @ R) = Some (k, CHR '':'' # vt @ R)"
    using k by (rule parse_chars_plain)
  have skc: "skip_ws (CHR '':'' # vt @ R) = CHR '':'' # vt @ R"
    by (simp add: skip_ws_def is_ws_def)
  from fo have R: "R \<noteq> []" "skip_ws R = R"
    by (auto simp: follow_def follow_skip_ws)
  have len: "length R - Suc 0 < Suc (Suc (Suc (length k + (length vt + length R))))"
    by simp
  show ?thesis
    by (subst parse_members.simps) (simp add: starts_def pc skc sk pv R len)
qed

lemma fields_text_follow: "follow (fields_text ms @ CHR ''}'' # rest)"
  by (cases ms) (simp_all add: follow_def fields_text_def field_text_def)

lemma parse_members_fields:
  assumes "plain k" and "parse_value 1 (vt @ fields_text ms @ CHR ''}'' # rest) =
                          Some (v, fields_text ms @ CHR ''}'' # rest)"
    and "vt \<noteq> []" "value_start (hd vt)" and "wf_fields ms"
  shows "parse_members 1 (CHR 0x22 # k @ CHR 0x22 # CHR '':'' # vt @ fields_text ms @ CHR ''}'' # rest) =
         Some ((k, v) # ms, rest)"
  using assms
proof (induction ms arbitrary: k vt v)
  case Nil
  from parse_members_raw_step[OF Nil(1) Nil(2) Nil(3) Nil(4) fields_text_follow]
  show ?case by (simp add: fields_text_def)
next
  case (Cons m ms)
  define R where "R = fields_text ms @ CHR ''}'' # rest"
  from Cons(6) have m: "plain (fst m)" "wf_json (snd m)" "wf_fields ms"
    and dm: "1 + int (depth (snd m)) \<le> maxNestingDepth"
    by (simp_all add: wf_fields_def wf_value_def)
  have fo: "follow R" unfolding R_def by (rule fields_text_follow)
  have pv: "parse_value 1 (render (snd m) @ R) = Some (snd m, R)"
    using parse_value_render[OF m(2) dm fo] .
  from render_start[OF m(2)] have st: "render (snd m) \<noteq> []" "value_start (hd (render (snd m)))"
    by simp_all
  have ih: "parse_members 1 (CHR 0x22 # fst m @ CHR 0x22 # CHR '':'' # render (snd m) @ R) =
            Some ((fst m, snd m) # ms, rest)"
    unfolding R_def using Cons.IH[OF m(1) pv[unfolded R_def] st m(3)] .
  have e: "fields_text (m # ms) @ CHR ''}'' # rest =
           CHR '','' # CHR '' '' # CHR 0x22 # fst m @ CHR 0x22 # CHR '':'' # render (snd m) @ R"
    by (simp add: fields_text_def field_text_def R_def)
  have sk: "skip_ws (CHR '' '' # CHR 0x22 # fst m @ CHR 0x22 # CHR '':'' # render (snd m) @ R) =
            CHR 0x22 # fst m @ CHR 0x22 # CHR '':'' # render (snd m) @ R"
    by (simp add: skip_ws_def is_ws_def)
  from parse_members_raw_step[OF Cons(2) Cons(3) Cons(4) Cons(5) fields_text_follow]
  show ?case
    unfolding e by (simp add: sk ih)
qed

lemma parse_value_raw_string:
  "plain s \<Longrightarrow> parse_value d (CHR 0x22 # s @ CHR 0x22 # R) = Some (JString s, R)"
  by (subst parse_value.simps) (simp add: parse_chars_plain)

lemma value_start_quote: "value_start (CHR 0x22)"
  by (simp add: value_start_def is_ws_def)

lemma parse_members_header_step:
  assumes "plain k" "plain s" and "\<exists>t. A = CHR 0x22 # t" and "parse_members d A = Some (ms, r)"
  shows "parse_members d (CHR 0x22 # k @ CHR 0x22 # CHR '':'' # (CHR 0x22 # s @ [CHR 0x22]) @
                        CHR '','' # CHR '' '' # A) = Some ((k, JString s) # ms, r)"
proof -
  let ?R = "CHR '','' # CHR '' '' # A"
  have pv: "parse_value d ((CHR 0x22 # s @ [CHR 0x22]) @ ?R) = Some (JString s, ?R)"
    using parse_value_raw_string[OF assms(2), of d ?R] by simp
  have fo: "follow ?R" by (simp add: follow_def)
  from assms(3) have sk: "skip_ws (CHR '' '' # A) = A"
    by (auto simp: skip_ws_def is_ws_def)
  from parse_members_raw_step[OF assms(1) pv _ _ fo] show ?thesis
    by (simp add: value_start_quote sk assms(4))
qed

lemma plain_keys: "plain ''_t''" "plain ''_l''" "plain ''_n''" "plain ''_m''"
  by (simp_all add: plain_def plain_char_def)

lemma parse_record:
  assumes "plain ts" "plain lv" "plain nm" "wf_value jm" "wf_fields fs"
  shows "parse_document (record_text ts lv nm jm fs) = Some (JObject (record_members ts lv nm jm fs))"
proof -
  define A4 where "A4 = CHR 0x22 # ''_m'' @ CHR 0x22 # CHR '':'' # render jm @ fields_text fs @ CHR ''}'' # [CHR 0x0A]"
  define A3 where "A3 = CHR 0x22 # ''_n'' @ CHR 0x22 # CHR '':'' # (CHR 0x22 # nm @ [CHR 0x22]) @ CHR '','' # CHR '' '' # A4"
  define A2 where "A2 = CHR 0x22 # ''_l'' @ CHR 0x22 # CHR '':'' # (CHR 0x22 # lv @ [CHR 0x22]) @ CHR '','' # CHR '' '' # A3"
  define A1 where "A1 = CHR 0x22 # ''_t'' @ CHR 0x22 # CHR '':'' # (CHR 0x22 # ts @ [CHR 0x22]) @ CHR '','' # CHR '' '' # A2"
  from assms(4) have wj: "wf_json jm" and dj: "1 + int (depth jm) \<le> maxNestingDepth"
    by (simp_all add: wf_value_def)
  have pv: "parse_value 1 (render jm @ fields_text fs @ CHR ''}'' # [CHR 0x0A]) =
            Some (jm, fields_text fs @ CHR ''}'' # [CHR 0x0A])"
    using parse_value_render[OF wj dj fields_text_follow] .
  from render_start[OF wj] have st: "render jm \<noteq> []" "value_start (hd (render jm))"
    by simp_all
  have p4: "parse_members 1 A4 = Some ((''_m'', jm) # fs, [CHR 0x0A])"
    unfolding A4_def using parse_members_fields[OF plain_keys(4) pv st assms(5)] .
  have p3: "parse_members 1 A3 = Some ((''_n'', JString nm) # (''_m'', jm) # fs, [CHR 0x0A])"
    unfolding A3_def
    by (rule parse_members_header_step[OF plain_keys(3) assms(3) _ p4]) (simp add: A4_def)
  have p2: "parse_members 1 A2 =
      Some ((''_l'', JString lv) # (''_n'', JString nm) # (''_m'', jm) # fs, [CHR 0x0A])"
    unfolding A2_def
    by (rule parse_members_header_step[OF plain_keys(2) assms(2) _ p3]) (simp add: A3_def)
  have "parse_members 1 A1 =
      Some ((''_t'', JString ts) # (''_l'', JString lv) # (''_n'', JString nm) # (''_m'', jm) # fs,
            [CHR 0x0A])"
    unfolding A1_def
    by (rule parse_members_header_step[OF plain_keys(1) assms(1) _ p2]) (simp add: A2_def)
  then have p1: "parse_members 1 A1 = Some (record_members ts lv nm jm fs, [CHR 0x0A])"
    by (simp add: record_members_def)
  have e: "record_text ts lv nm jm fs = CHR ''{'' # A1"
    by (simp add: record_text_def A1_def A2_def A3_def A4_def)
  have sk: "skip_ws A1 = A1" "\<not> starts CHR ''}'' A1"
    by (simp_all add: A1_def skip_ws_def is_ws_def starts_def)
  have "parse_value 0 (CHR ''{'' # A1) = Some (JObject (record_members ts lv nm jm fs), [CHR 0x0A])"
    by (subst parse_value.simps) (simp add: sk p1 maxNestingDepth_def)
  then show ?thesis
    unfolding e by (simp add: parse_document_def skip_ws_def is_ws_def)
qed

section \<open>What \<open>Format\<close> writes and what \<open>LogEntry\<close> reads\<close>

lemma appendValue_prefix:
  "appendValue e buf val =
     (case appendValue e [] val of Inl p \<Rightarrow> Inl p | Inr t \<Rightarrow> Inr (buf @ t))"
  by (simp add: appendValue.simps[of e buf val] appendValue.simps[of e "[]" val] Let_def
      writeError.simps set_kv.simps appendValue_VString writeString_def
      split: option.splits sum.splits)

lemma set_kv_prefix:
  "set_kv e buf key val =
     (case set_kv e [] key val of Inl p \<Rightarrow> Inl p | Inr t \<Rightarrow> Inr (buf @ t))"
  by (simp add: set_kv.simps appendValue_prefix[of e "buf @ _"] appendValue_prefix[of e "CHR '','' # _"]
      split: sum.splits)

lemma set_all_emits:
  "list_all2 (emits e) ps mss \<Longrightarrow> set_all e buf ps = Inr (buf @ fields_text (concat mss))"
proof (induction ps mss arbitrary: buf rule: list_all2_induct)
  case Nil
  then show ?case by (simp add: fields_text_def)
next
  case (Cons p ps ms mss)
  obtain k v where p: "p = (k, v)" by (cases p)
  from Cons(1) p have "set_kv e buf k v = Inr (buf @ fields_text ms)"
    by (subst set_kv_prefix) (simp add: emits_def)
  with Cons.IH[of "buf @ fields_text ms"] show ?case
    by (simp add: p fields_text_def)
qed

lemma Format_emitted:
  \<open>Format jf e buf level msg args =
     (case set_all e (buf @ Format_head jf e level msg) (emitted e args) of
        Inl p \<Rightarrow> Inl p
      | Inr b \<Rightarrow> Inr (b @ ''}'' @ [CHR 0x0A]))\<close>
proof (cases "even (length args)")
  case True
  then show ?thesis
    by (cases "args = []") (simp_all add: Format_even emitted_def)
next
  case False
  then have "args \<noteq> []" by auto
  with False show ?thesis
    by (simp add: Format_unfold emitted_def split: sum.splits)
qed

lemma Format_record:
  assumes "appendValue e [] (VString msg) = Inr (render jm)"
    and "list_all2 (emits e) (emitted e args) mss"
  shows "Format jf e [] level msg args =
         Inr (record_text (Now e) (LevelMap e level) (name jf) jm (concat mss))"
proof -
  from assms(1) have "structural e (VString msg) = render jm"
    by (simp add: appendValue_VString)
  then show ?thesis
    by (simp add: Format_emitted set_all_emits[OF assms(2)] Format_head_def record_text_def)
qed

lemma foldl_update:
  "foldl (\<lambda>m (k, v). m(k \<mapsto> v)) m0 ms = m0 ++ map_of (rev ms)"
  by (induction ms arbitrary: m0) (auto simp: map_add_upd_left map_add_assoc[symmetric] fun_eq_iff map_add_def split: option.splits)


lemma those_Some_nth:
  "those xs = Some ys \<Longrightarrow> length ys = length xs \<and> (\<forall>i < length xs. xs ! i = Some (ys ! i))"
proof (induction xs arbitrary: ys)
  case Nil
  then show ?case by simp
next
  case (Cons x xs)
  then obtain y ys' where y: "x = Some y" "those xs = Some ys'" "ys = y # ys'"
    by (auto split: option.splits)
  with Cons.IH[of ys'] show ?case by (auto simp: nth_Cons split: nat.splits)
qed



lemma decode_members_Some:
  assumes "decode_members pf ms = Some kvs"
  shows "map fst kvs = map fst ms"
    and "\<forall>i < length ms. decode pf (snd (ms ! i)) = Some (snd (kvs ! i))"
proof -
  from those_Some_nth[OF assms[unfolded decode_members_def]]
  have l: "length kvs = length ms"
    and n: "\<And>i. i < length ms \<Longrightarrow> map_option (Pair (fst (ms ! i))) (decode pf (snd (ms ! i))) = Some (kvs ! i)"
    by (auto simp: case_prod_beta)
  have k: "fst (kvs ! i) = fst (ms ! i) \<and> decode pf (snd (ms ! i)) = Some (snd (kvs ! i))"
    if "i < length ms" for i
    using n[OF that] by (cases "kvs ! i") auto
  from l k show "map fst kvs = map fst ms"
    by (auto intro: nth_equalityI)
  from k show "\<forall>i < length ms. decode pf (snd (ms ! i)) = Some (snd (kvs ! i))"
    by simp
qed

lemma json_Unmarshal_object:
  "parse_document data = Some (JObject ms) \<Longrightarrow> decode_members (ParseFloat e) ms = Some kvs \<Longrightarrow>
   json_Unmarshal e data = Some (map_of (rev kvs))"
  by (simp add: json_Unmarshal_def foldl_update)

lemma wf_fields_emits: "list_all2 (emits e) ps mss \<Longrightarrow> wf_fields (concat mss)"
  by (induction rule: list_all2_induct) (simp_all add: wf_fields_def emits_def)

lemma LogEntry_members:
  assumes "plain (Now e)" "plain (LevelMap e level)" "plain (name jf)"
    and "appendValue e [] (VString msg) = Inr (render jm)" "wf_value jm"
    and "list_all2 (emits e) (emitted e args) mss"
    and "decode_members (ParseFloat e)
           (record_members (Now e) (LevelMap e level) (name jf) jm (concat mss)) = Some kvs"
  shows "LogEntry jf e level msg args = Inr (map_of (rev kvs))"
proof -
  from assms(6) have "wf_fields (concat mss)" by (rule wf_fields_emits)
  from parse_record[OF assms(1-3) assms(5) this] assms(7) show ?thesis
    by (simp add: LogEntry_def Format_record[OF assms(4) assms(6)] json_Unmarshal_object)
qed

lemma map_of_rev_last:
  assumes "i < length ms"
    and "\<forall>i'. i < i' \<and> i' < length ms \<longrightarrow> fst (ms ! i') \<noteq> fst (ms ! i)"
  shows "map_of (rev ms) (fst (ms ! i)) = Some (snd (ms ! i))"
  using assms
proof (induction ms rule: rev_induct)
  case Nil
  then show ?case by simp
next
  case (snoc x xs)
  show ?case
  proof (cases "i = length xs")
    case True
    then show ?thesis by (cases x) simp
  next
    case False
    with snoc(2) have i: "i < length xs" by simp
    from snoc(3) i have "fst x \<noteq> fst (xs ! i)"
      by (auto simp: nth_append dest: spec[of _ "length xs"])
    moreover have "\<forall>i'. i < i' \<and> i' < length xs \<longrightarrow> fst (xs ! i') \<noteq> fst (xs ! i)"
    proof (intro allI impI)
      fix i' assume a: "i < i' \<and> i' < length xs"
      with snoc(3) have "fst ((xs @ [x]) ! i') \<noteq> fst ((xs @ [x]) ! i)" by simp
      with a i show "fst (xs ! i') \<noteq> fst (xs ! i)" by (simp add: nth_append)
    qed
    ultimately show ?thesis
      using snoc.IH[OF i] i by (cases x) (auto simp: nth_append)
  qed
qed

lemma dom_map_of_rev: "dom (map_of (rev ms)) = fst ` set ms"
  by (simp add: dom_map_of_conv_image_fst)

lemma card_keys_le: "card (fst ` set ms) \<le> length ms"
  by (metis card_image_le card_length le_trans List.finite_set)

lemma card_keys_less: "card (fst ` set ms) < length ms \<longleftrightarrow> \<not> distinct (map fst ms)"
proof -
  have "card (set (map fst ms)) = length (map fst ms) \<longleftrightarrow> distinct (map fst ms)"
    using card_distinct distinct_card by blast
  then show ?thesis
    using card_keys_le[of ms] by auto
qed

lemma Interface_panic: "Interface value = Inl p \<Longrightarrow> p = ZeroValueInterface"
  by (cases "value") simp_all

lemma decoded_dom:
  assumes "decode_members pf ms = Some kvs"
  shows "dom (map_of (rev kvs)) = fst ` set ms"
proof -
  have "fst ` set kvs = set (map fst kvs)" by simp
  also have "\<dots> = set (map fst ms)" using decode_members_Some(1)[OF assms] by simp
  finally show ?thesis by (simp add: dom_map_of_rev)
qed

lemma decoded_last_wins:
  assumes "decode_members pf ms = Some kvs" and "i < length ms"
    and "\<forall>i'. i < i' \<and> i' < length ms \<longrightarrow> fst (ms ! i') \<noteq> fst (ms ! i)"
  shows "map_of (rev kvs) (fst (ms ! i)) = decode pf (snd (ms ! i))"
proof -
  note k = decode_members_Some[OF assms(1)]
  from k(1) have l: "length kvs = length ms" by (metis length_map)
  have f: "fst (kvs ! j) = fst (ms ! j)" if "j < length ms" for j
    using k(1) that l by (metis nth_map)
  from assms(2,3) l f have "map_of (rev kvs) (fst (kvs ! i)) = Some (snd (kvs ! i))"
    by (intro map_of_rev_last) auto
  with f[OF assms(2)] k(2) assms(2) show ?thesis by simp
qed

lemma appendValue_panic: "appendValue e buf val = Inl p \<Longrightarrow> p = ZeroValueInterface"
  by (simp add: appendValue.simps[of e buf val] Let_def writeError.simps set_kv.simps
      appendValue_VString Interface_panic split: option.splits if_splits sum.splits)

lemma set_all_result:
  "set_all e buf ps = Inl p \<Longrightarrow> p = ZeroValueInterface"
  "set_all e buf ps = Inr b \<Longrightarrow> \<exists>t. b = buf @ t"
proof (induction ps arbitrary: buf)
  case Nil
  { case 1 then show ?case by simp }
  { case 2 then show ?case by simp }
next
  case (Cons a ps)
  obtain k v where a: "a = (k, v)" by (cases a)
  { case 1
    show ?case
    proof (cases "set_kv e buf k v")
      case (Inl q)
      with 1 a have "q = p" by simp
      with Inl show ?thesis by (auto simp: set_kv.simps dest: appendValue_panic)
    next
      case (Inr b')
      with 1 a Cons.IH(1)[of b'] show ?thesis by simp
    qed }
  { case 2
    show ?case
    proof (cases "set_kv e buf k v")
      case (Inl q)
      with 2 a show ?thesis by simp
    next
      case (Inr b')
      then obtain t where "b' = buf @ t"
        using set_kv_prefix[of e buf k v] by (auto split: sum.splits)
      with Inr 2 a Cons.IH(2)[of b'] show ?thesis by auto
    qed }
qed

lemma Format_result:
  "Format jf e [] level msg args = Inl p \<Longrightarrow> p = ZeroValueInterface"
  "Format jf e [] level msg args = Inr out \<Longrightarrow> \<exists>t. out = CHR ''{'' # t"
proof -
  assume "Format jf e [] level msg args = Inl p"
  then show "p = ZeroValueInterface"
    by (auto simp: Format_emitted split: sum.splits dest: set_all_result(1))
next
  assume "Format jf e [] level msg args = Inr out"
  then obtain b where b: "set_all e (Format_head jf e level msg) (emitted e args) = Inr b"
    "out = b @ ''}'' @ [CHR 0x0A]"
    by (auto simp: Format_emitted split: sum.splits)
  from set_all_result(2)[OF b(1)] obtain t where "b = Format_head jf e level msg @ t" by auto
  with b(2) show "\<exists>t. out = CHR ''{'' # t" by (simp add: Format_head_def)
qed

lemma parse_document_object:
  "parse_document (CHR ''{'' # t) = Some j \<Longrightarrow> \<exists>ms. j = JObject ms"
  by (auto simp: parse_document_def skip_ws_def is_ws_def parse_value.simps[of 0 "CHR ''{'' # t"]
      Let_def split: option.splits if_splits)


lemma json_Unmarshal_Some:
  assumes "json_Unmarshal e (CHR ''{'' # t) = Some entry"
  shows "\<exists>ms kvs. parse_document (CHR ''{'' # t) = Some (JObject ms) \<and>
           decode_members (ParseFloat e) ms = Some kvs \<and> entry = map_of (rev kvs)"
proof (cases "parse_document (CHR ''{'' # t)")
  case None
  with assms show ?thesis by (simp add: json_Unmarshal_def)
next
  case (Some j)
  with parse_document_object[OF Some] assms show ?thesis
    by (auto simp: json_Unmarshal_def foldl_update split: option.splits)
qed

lemmas number_eval =
  parse_number_def scan_int_def scan_digits1_def scan_frac_def scan_exp_def starts_def is_digit_def

subsection \<open>\<open>strconv.ParseFloat\<close> on sample literals\<close>

lemmas ParseFloat_eval =
  go_ParseFloat_def scan_int_def scan_digits1_def scan_frac_def scan_exp_def starts_def is_digit_def
  ParseUint_def digit_val_def exp_val_def float64_bits_def floor_log2_def bitlen.simps
  round_even_def Let_def







lemma go_ParseFloat_small:
  "go_ParseFloat ''1'' = Some 0x3FF0000000000000"
  "go_ParseFloat ''2'' = Some 0x4000000000000000"
  "go_ParseFloat ''8080'' = Some 0x40BF900000000000"
  by (simp_all add: ParseFloat_eval)

lemmas emits_eval =
  emits_def emitted_def field_key_def set_kv.simps appendValue_VInt appendValue_VBool
  appendValue_VString appendValue_error primitive_kind_def deref_def ValueOf_def writeString_def
  structural_def fallback_def fields_text_def field_text_def wf_fields_def wf_value_def
  maxNestingDepth_def plain_def plain_char_def ascii_def quote_eval hex_char_def
  FormatInt_def FormatUint.simps digit_char_def number_eval

subsection \<open>Calls of \<open>set\<close> that write JSON texts\<close>

lemma emits_signed:
  assumes "plain k" "kindOf v \<in> {KInt, KInt8, KInt16, KInt32, KInt64}" "val = v \<or> val = VPtr (Some v)"
  shows "emits e (k, val) [(k, JNumber (FormatInt (intOf v)))]"
  using assms(1)
  by (simp add: emits_def set_kv.simps appendValue_signed[OF assms(2,3)] fields_text_def
      field_text_def wf_fields_def wf_value_def maxNestingDepth_def parse_number_FormatInt)



lemma emits_unsigned:
  assumes "plain k" "kindOf v \<in> {KUint, KUint8, KUint16, KUint32, KUint64, KUintptr}"
    "val = v \<or> val = VPtr (Some v)"
  shows "emits e (k, val) [(k, JNumber (FormatUint (uintOf v)))]"
  using assms(1)
  by (simp add: emits_def set_kv.simps appendValue_unsigned[OF assms(2,3)] fields_text_def
      field_text_def wf_fields_def wf_value_def maxNestingDepth_def parse_number_FormatUint)



lemma emits_bool:
  assumes "plain k" "kindOf v = KBool" "val = v \<or> val = VPtr (Some v)"
  shows "emits e (k, val) [(k, JBool (boolOf v))]"
  using assms(1)
  by (simp add: emits_def set_kv.simps appendValue_bool[OF assms(2,3)] fields_text_def
      field_text_def wf_fields_def wf_value_def maxNestingDepth_def)



lemma emits_nil: "plain k \<Longrightarrow> emits e (k, VNil) [(k, JNull)]"
  by (simp add: emits_def set_kv.simps appendValue.simps[of e _ VNil] fields_text_def field_text_def
      wf_fields_def wf_value_def maxNestingDepth_def)



lemma emits_string:
  assumes "plain k" "Marshal e (VString s) = Some (quote s)" "ascii s"
  shows "emits e (k, VString s) [(k, JString s)]"
  using assms
  by (simp add: emits_def set_kv.simps appendValue_VString structural_def fields_text_def
      field_text_def wf_fields_def wf_value_def maxNestingDepth_def)



lemma emits_error:
  assumes "plain k" "plain (callstackKey e)" "asError val = Some t"
    and "\<not> primitive_kind (Kind (deref val))"
    and "Marshal e (VString t) = Some (quote t)" "Marshal e (VString (Stack e)) = Some (quote (Stack e))"
    and "ascii t" "ascii (Stack e)"
  shows "emits e (k, val) [(k, JString t), (callstackKey e, JString (Stack e))]"
  using assms
  by (simp add: emits_def set_kv.simps appendValue_error writeString_def structural_def
      fields_text_def field_text_def wf_fields_def wf_value_def maxNestingDepth_def)

section \<open>Claims C1 to C3: keys, names and nil pointers\<close>

text \<open>
  Claim C1 says that the bytes of \<open>Format\<close> always parse as a JSON object. \<open>set\<close> writes the
  key between two quotes without escaping it, so a key that contains a quote ends the
  JSON string early: for the pair \<open>a"b\<close>, 1 the bytes are not a JSON text, and \<open>LogEntry\<close>
  panics on them.
\<close>

theorem Format_output_not_JSON:
  \<open>Format \<lparr>name = ''svc''\<rparr> go_env [] 6 ''started'' [VString ''a"b'', VInt 1] =
     Inr (''{"_t":"2026-01-02T15:04:05", "_l":"INFO", "_n":"svc", "_m":"started", "a"b":1}'' @
          [CHR 0x0A]) \<and>
   parse_document
     (''{"_t":"2026-01-02T15:04:05", "_l":"INFO", "_n":"svc", "_m":"started", "a"b":1}'' @
      [CHR 0x0A]) = None \<and>
   LogEntry \<lparr>name = ''svc''\<rparr> go_env 6 ''started'' [VString ''a"b'', VInt 1] =
     Inl UnmarshalFailed\<close>
proof -
  have f: \<open>Format \<lparr>name = ''svc''\<rparr> go_env [] 6 ''started'' [VString ''a"b'', VInt 1] =
     Inr (''{"_t":"2026-01-02T15:04:05", "_l":"INFO", "_n":"svc", "_m":"started", "a"b":1}'' @
          [CHR 0x0A])\<close>
    by (simp add: Format_eval)
  have p: \<open>parse_document
     (''{"_t":"2026-01-02T15:04:05", "_l":"INFO", "_n":"svc", "_m":"started", "a"b":1}'' @
      [CHR 0x0A]) = None\<close>
    by code_simp
  show ?thesis
    using p by (simp add: f LogEntry_def json_Unmarshal_def del: append.simps)
qed

text \<open>
  Claim C2 says that \<open>Format\<close> completes on every input, nil-typed values included. On a
  pair whose value is a typed nil pointer (for instance \<open>(*int)(nil)\<close>) it does not:
  \<open>appendValue\<close> finds an interface that is not nil, of kind \<open>Ptr\<close>; \<open>Elem\<close> gives the zero
  Value, of kind \<open>Invalid\<close>; the default case calls \<open>value.Interface()\<close> on it, which panics,
  whatever the key, the message, the level or the environment.
\<close>

theorem Format_typed_nil_pointer:
  \<open>Format jf e buf level msg [k, VPtr None] = Inl ZeroValueInterface\<close>
  by (simp add: Format_even set_kv.simps appendValue_nil_pointer ValueOf_def)

text \<open>
  Claim C3 says that the name under \<open>_n\<close> and every key are written with JSON string
  escaping. They are written byte for byte: the name \<open>a"b\<close> and the key \<open>k<1\<close> appear in
  the record as they are, where \<open>json.Marshal\<close>, which the same file uses for string
  values and error texts, writes \<open>"a\"b"\<close> and \<open>"k\u003c1"\<close>.
\<close>

theorem name_and_key_written_raw:
  \<open>Format \<lparr>name = ''a"b''\<rparr> go_env [] 6 ''started'' [VString ''k<1'', VInt 1] =
     Inr (''{"_t":"2026-01-02T15:04:05", "_l":"INFO", "_n":"a"b", "_m":"started", "k<1":1}'' @
          [CHR 0x0A]) \<and>
   json_Marshal (VString ''a"b'') = Some (''"a'' @ [CHR 0x5C] @ ''"b"'') \<and>
   json_Marshal (VString ''k<1'') = Some (''"k'' @ [CHR 0x5C] @ ''u003c1"'')\<close>
  by (simp add: Format_eval)

section \<open>Claims C4 and C5: the field pairing\<close>

text \<open>
  Claim C4, amended. For an argument list of odd length \<open>Format\<close> writes one field after
  \<open>_m\<close>, under \<open>warnImbalancedKey\<close>, and returns. Its value is what \<open>json.Marshal\<close> gives for
  the whole argument slice (a JSON array) when \<open>json.Marshal\<close> succeeds; when it fails,
  the value is the JSON string of the \<open>%#v\<close> text of the slice, or the fixed literal.
\<close>

theorem Format_odd_args:
  assumes "odd (length args)"
  shows \<open>Format jf e buf level msg args =
     Inr (buf @ Format_head jf e level msg @ '', "'' @ warnImbalancedKey e @ ''":'' @
          (case Marshal e (VSlice args) of
             Some b \<Rightarrow> b
           | None \<Rightarrow>
              (case Marshal e (VString (Sprintf e (VSlice args))) of
                 Some s \<Rightarrow> s
               | None \<Rightarrow> ''"Could not Sprintf value"'')) @
          ''}'' @ [CHR 0x0A])\<close>
  by (simp add: Format_odd[OF assms] structural_def fallback_def split: option.splits)

theorem Format_odd_args_witness:
  \<open>odd (length [VString ''onlyKey'']) \<and>
   Format \<lparr>name = ''svc''\<rparr> go_env [] 4 ''bad'' [VString ''onlyKey''] =
     Inr (''{"_t":"2026-01-02T15:04:05", "_l":"WARN", "_n":"svc", "_m":"bad", '' @
          ''"args(odd)":["onlyKey"]}'' @ [CHR 0x0A])\<close>
  using Format_odd_args[of "[VString ''onlyKey'']" "\<lparr>name = ''svc''\<rparr>" go_env "[]" 4 "''bad''"]
  by (simp add: Format_head_def structural_def go_env_def quote_eval)

text \<open>
  Claim C4 as stated fails on an argument list that holds a func: the value under
  \<open>args(odd)\<close> is a JSON string, not a JSON array.
\<close>

theorem odd_args_value_not_array:
  \<open>Format \<lparr>name = ''svc''\<rparr> go_env [] 4 ''bad'' [VFunc 0x47b0e0] =
     Inr (''{"_t":"2026-01-02T15:04:05", "_l":"WARN", "_n":"svc", "_m":"bad", '' @
          ''"args(odd)":"[]interface {}{(func())(0x47b0e0)}"}'' @ [CHR 0x0A]) \<and>
   parse_document
     (''{"_t":"2026-01-02T15:04:05", "_l":"WARN", "_n":"svc", "_m":"bad", '' @
      ''"args(odd)":"[]interface {}{(func())(0x47b0e0)}"}'' @ [CHR 0x0A]) =
     Some (JObject
       [(''_t'', JString ''2026-01-02T15:04:05''), (''_l'', JString ''WARN''),
        (''_n'', JString ''svc''), (''_m'', JString ''bad''),
        (''args(odd)'', JString ''[]interface {}{(func())(0x47b0e0)}'')])\<close>
proof
  show \<open>Format \<lparr>name = ''svc''\<rparr> go_env [] 4 ''bad'' [VFunc 0x47b0e0] =
     Inr (''{"_t":"2026-01-02T15:04:05", "_l":"WARN", "_n":"svc", "_m":"bad", '' @
          ''"args(odd)":"[]interface {}{(func())(0x47b0e0)}"}'' @ [CHR 0x0A])\<close>
    by (simp add: Format_odd Format_head_def structural_def fallback_def go_env_def quote_eval FormatHex_47b0e0)
  show \<open>parse_document
     (''{"_t":"2026-01-02T15:04:05", "_l":"WARN", "_n":"svc", "_m":"bad", '' @
      ''"args(odd)":"[]interface {}{(func())(0x47b0e0)}"}'' @ [CHR 0x0A]) =
     Some (JObject
       [(''_t'', JString ''2026-01-02T15:04:05''), (''_l'', JString ''WARN''),
        (''_n'', JString ''svc''), (''_m'', JString ''bad''),
        (''args(odd)'', JString ''[]interface {}{(func())(0x47b0e0)}'')])\<close>
    by code_simp
qed

text \<open>
  Claim C5, amended. For an argument list of even length \<open>Format\<close> calls \<open>set\<close> once for
  each pair, in order, and no pair is left out: there are \<open>len/2\<close> pairs, which is
  \<open>ceil(len/2)\<close>; the pair at the even index \<open>2j\<close> is written under its own key when that
  is a non-empty string, and under \<open>badKeyAtIndex(2j)\<close> when it is the empty string or not
  a string; its value is \<open>args[2j+1]\<close>, encoded by \<open>appendValue\<close>.
\<close>

theorem Format_even_args:
  assumes "even (length args)"
  shows \<open>Format jf e buf level msg args =
           (case set_all e (buf @ Format_head jf e level msg) (pairs e 0 args) of
              Inl p \<Rightarrow> Inl p
            | Inr b \<Rightarrow> Inr (b @ ''}'' @ [CHR 0x0A])) \<and>
         length (pairs e 0 args) = (length args + 1) div 2 \<and>
         (\<forall>j < length args div 2.
            pairs e 0 args ! j =
              (case asString (args ! (2 * j)) of
                 Some key \<Rightarrow> if key = [] then badKeyAtIndex e (2 * j) else key
               | None \<Rightarrow> badKeyAtIndex e (2 * j),
               args ! (2 * j + 1)))\<close>
proof -
  have "2 * j + 1 < length args" if "j < length args div 2" for j
    using that assms by presburger
  then show ?thesis
    using assms Format_even[OF assms, of jf e buf level msg]
    by (auto simp: length_pairs nth_pairs[of _ args e 0, simplified] field_key_def)
qed

theorem Format_even_args_witness:
  \<open>even (length [VInt 7, VString ''x'', VString [], VBool True, VString ''port'', VInt 8080]) \<and>
   Format \<lparr>name = ''svc''\<rparr> go_env [] 6 ''started''
     [VInt 7, VString ''x'', VString [], VBool True, VString ''port'', VInt 8080] =
     Inr (''{"_t":"2026-01-02T15:04:05", "_l":"INFO", "_n":"svc", "_m":"started", '' @
          ''"badKey[0]":"x", "badKey[2]":true, "port":8080}'' @ [CHR 0x0A])\<close>
  using Format_even_args[of "[VInt 7, VString ''x'', VString [], VBool True, VString ''port'', VInt 8080]"
      "\<lparr>name = ''svc''\<rparr>" go_env "[]" 6 "''started''"]
  by (simp add: Format_head_def field_key_def set_kv.simps appendValue_VInt appendValue_VBool
      appendValue_VString structural_def go_env_def quote_eval FormatInt_def
      FormatUint.simps digit_char_def)

text \<open>
  Claim C5 as stated fails in two ways. Three arguments give one field, not two; and a
  pair whose value is an error gives two fields, its own and the call stack.
\<close>

theorem field_count_counterexample:
  \<open>(case Format \<lparr>name = ''svc''\<rparr> go_env [] 6 ''started'' [VString ''a'', VInt 1, VString ''b''] of
      Inr out \<Rightarrow> emitted_fields out
    | Inl p \<Rightarrow> None) = Some 1 \<and>
   (length [VString ''a'', VInt 1, VString ''b''] + 1) div 2 = 2 \<and>
   (case Format \<lparr>name = ''svc''\<rparr> go_env [] 3 ''boom''
           [VString ''err'', VErr ''disk full'' (VPtr (Some (VStruct [])))] of
      Inr out \<Rightarrow> emitted_fields out
    | Inl p \<Rightarrow> None) = Some 2 \<and>
   (length [VString ''err'', VErr ''disk full'' (VPtr (Some (VStruct [])))] + 1) div 2 = 1\<close>
proof -
  have f1: \<open>Format \<lparr>name = ''svc''\<rparr> go_env [] 6 ''started'' [VString ''a'', VInt 1, VString ''b''] =
     Inr (''{"_t":"2026-01-02T15:04:05", "_l":"INFO", "_n":"svc", "_m":"started", '' @
          ''"args(odd)":["a",1,"b"]}'' @ [CHR 0x0A])\<close>
    by (simp add: Format_eval)
  have p1: \<open>emitted_fields
     (''{"_t":"2026-01-02T15:04:05", "_l":"INFO", "_n":"svc", "_m":"started", '' @
      ''"args(odd)":["a",1,"b"]}'' @ [CHR 0x0A]) = Some (Suc 0)\<close>
    by code_simp
  have f2: \<open>Format \<lparr>name = ''svc''\<rparr> go_env [] 3 ''boom''
           [VString ''err'', VErr ''disk full'' (VPtr (Some (VStruct [])))] =
    Inr (''{"_t":"2026-01-02T15:04:05", "_l":"ERROR", "_n":"svc", "_m":"boom", '' @
         ''"err":"disk full", "callstack":"goroutine 1 [running]:'' @ [CHR 0x5C] @
         ''nmain.main()"}'' @ [CHR 0x0A])\<close>
    by (simp add: Format_eval appendValue_error primitive_kind_def deref_def ValueOf_def
        writeString_def)
  have p2: \<open>emitted_fields
     (''{"_t":"2026-01-02T15:04:05", "_l":"ERROR", "_n":"svc", "_m":"boom", '' @
         ''"err":"disk full", "callstack":"goroutine 1 [running]:'' @ [CHR 0x5C] @
         ''nmain.main()"}'' @ [CHR 0x0A]) = Some (Suc (Suc 0))\<close>
    by code_simp
  show ?thesis
    using p1 p2 by (simp add: f1 f2)
qed

section \<open>Claims C6 and C7: error values and primitives\<close>

text \<open>
  A pointer to a pointer whose type implements \<open>error\<close> does not implement it: the type
  assertion fails, and \<open>appendValue\<close> hands the pointed-to pointer to \<open>json.Marshal\<close>; no
  call-stack field is written.
\<close>

lemma pointer_to_error_pointer:
  \<open>asError (VPtr (Some (VErr t (VPtr p)))) = None \<and>
   appendValue e buf (VPtr (Some (VErr t (VPtr p)))) =
     Inr (buf @ structural e (VErr t (VPtr p)))\<close>
proof
  show "asError (VPtr (Some (VErr t (VPtr p)))) = None" by simp
  show "appendValue e buf (VPtr (Some (VErr t (VPtr p)))) =
     Inr (buf @ structural e (VErr t (VPtr p)))"
    by (rule appendValue_structural) (simp_all add: primitive_kind_def deref_def ValueOf_def)
qed

text \<open>
  Claim C6. A value whose dynamic type implements \<open>error\<close> (the type itself, or a pointer
  to a value of a type that is no pointer and has the method), and whose kind after the
  one dereference has no case of its own in the \<open>switch\<close>, is written as the JSON string
  of its \<open>Error()\<close> text followed by a further field under \<open>callstackKey\<close> that holds the
  JSON string of the stack trace. Both land in the same buffer: a record with the pair
  \<open>key, val\<close> carries the field \<open>key\<close> and, right after it, the field \<open>callstackKey\<close>. The
  two hypotheses on \<open>Marshal\<close> say that \<open>json.Marshal\<close> succeeds on the two strings.
\<close>

theorem error_value_callstack:
  assumes "asError val = Some t"
    and "\<not> primitive_kind
             (Kind (if Kind (ValueOf val) = KPtr then Elem (ValueOf val) else ValueOf val))"
    and "Marshal e (VString t) = Some jt"
    and "Marshal e (VString (Stack e)) = Some js"
  shows \<open>appendValue e buf val = Inr (buf @ jt @ '', "'' @ callstackKey e @ ''":'' @ js) \<and>
         (key \<noteq> [] \<longrightarrow>
            Format jf e buf level msg [VString key, val] =
              Inr (buf @ Format_head jf e level msg @ '', "'' @ key @ ''":'' @ jt @
                   '', "'' @ callstackKey e @ ''":'' @ js @ ''}'' @ [CHR 0x0A]))\<close>
  using assms
  by (simp add: Format_even field_key_def set_kv.simps appendValue_error deref_def
      writeString_def structural_def)

theorem error_value_callstack_witness:
  \<open>Format \<lparr>name = ''svc''\<rparr> go_env [] 3 ''boom''
      [VString ''err'', VErr ''disk full'' (VPtr (Some (VStruct [])))] =
    Inr (''{"_t":"2026-01-02T15:04:05", "_l":"ERROR", "_n":"svc", "_m":"boom", '' @
         ''"err":"disk full", "callstack":"goroutine 1 [running]:'' @ [CHR 0x5C] @
         ''nmain.main()"}'' @ [CHR 0x0A]) \<and>
   appendValue go_env [] (VPtr (Some (VErr ''bad'' (VStruct [])))) =
     Inr (''"bad", "callstack":"goroutine 1 [running]:'' @ [CHR 0x5C] @ ''nmain.main()"'')\<close>
proof
  show \<open>Format \<lparr>name = ''svc''\<rparr> go_env [] 3 ''boom''
      [VString ''err'', VErr ''disk full'' (VPtr (Some (VStruct [])))] =
    Inr (''{"_t":"2026-01-02T15:04:05", "_l":"ERROR", "_n":"svc", "_m":"boom", '' @
         ''"err":"disk full", "callstack":"goroutine 1 [running]:'' @ [CHR 0x5C] @
         ''nmain.main()"}'' @ [CHR 0x0A])\<close>
    using error_value_callstack[of "VErr ''disk full'' (VPtr (Some (VStruct [])))" "''disk full''"
        go_env "quote ''disk full''" "quote (Stack go_env)" "[]" "''err''" "\<lparr>name = ''svc''\<rparr>" 3
        "''boom''"]
    by (simp add: primitive_kind_def ValueOf_def go_env_def quote_eval Format_head_def
        structural_def)
  show \<open>appendValue go_env [] (VPtr (Some (VErr ''bad'' (VStruct [])))) =
     Inr (''"bad", "callstack":"goroutine 1 [running]:'' @ [CHR 0x5C] @ ''nmain.main()"'')\<close>
    using error_value_callstack[of "VPtr (Some (VErr ''bad'' (VStruct [])))" "''bad''"
        go_env "quote ''bad''" "quote (Stack go_env)" "[]"]
    by (simp add: primitive_kind_def ValueOf_def go_env_def quote_eval)
qed

text \<open>
  The primitive cases of \<open>appendValue\<close>, with the precedence of the source: the nil
  interface is written as \<open>null\<close>; a boolean, and a pointer to a boolean, as \<open>true\<close> or
  \<open>false\<close>; a signed or unsigned integer of any width, and a pointer to one, as its
  decimal literal, which is a JSON number and from which \<open>ParseInt\<close> and \<open>ParseUint\<close> read
  the same number back. Only one pointer is followed by \<open>appendValue\<close> itself: a pointer
  to a pointer goes to the default case, where the pointed-to pointer is handed to
  \<open>json.Marshal\<close>.
\<close>

lemma appendValue_primitive_cases:
  \<open>appendValue e buf VNil = Inr (buf @ ''null'') \<and>
   (\<forall>v val. (val = v \<or> val = VPtr (Some v)) \<longrightarrow>
      (kindOf v = KBool \<longrightarrow>
         appendValue e buf val = Inr (buf @ (if boolOf v then ''true'' else ''false''))) \<and>
      (kindOf v \<in> {KInt, KInt8, KInt16, KInt32, KInt64} \<longrightarrow>
         appendValue e buf val = Inr (buf @ FormatInt (intOf v)) \<and>
         ParseInt (FormatInt (intOf v)) = intOf v \<and>
         parse_number (FormatInt (intOf v)) = Some (FormatInt (intOf v), [])) \<and>
      (kindOf v \<in> {KUint, KUint8, KUint16, KUint32, KUint64, KUintptr} \<longrightarrow>
         appendValue e buf val = Inr (buf @ FormatUint (uintOf v)) \<and>
         ParseUint (FormatUint (uintOf v)) = uintOf v \<and>
         parse_number (FormatUint (uintOf v)) = Some (FormatUint (uintOf v), []))) \<and>
   (\<forall>p. appendValue e buf (VPtr (Some (VPtr p))) = Inr (buf @ structural e (VPtr p)))\<close>
proof (intro conjI allI impI)
  show \<open>appendValue e buf VNil = Inr (buf @ ''null'')\<close>
    by (simp add: appendValue.simps[of e buf VNil])
next
  fix p
  show "appendValue e buf (VPtr (Some (VPtr p))) = Inr (buf @ structural e (VPtr p))"
    by (rule appendValue_structural) (simp_all add: primitive_kind_def deref_def ValueOf_def)
qed (simp_all add: appendValue_bool appendValue_signed appendValue_unsigned
       ParseInt_FormatInt ParseUint_FormatUint parse_number_FormatInt parse_number_FormatUint)

lemma appendValue_primitive_examples:
  \<open>appendValue go_env [] (VPtr (Some (VBool True))) = Inr ''true'' \<and>
   appendValue go_env [] (VBool False) = Inr ''false'' \<and>
   appendValue go_env [] (VInt8 0xFB) = Inr ''-5'' \<and>
   appendValue go_env [] (VPtr (Some (VInt64 8080))) = Inr ''8080'' \<and>
   appendValue go_env [] (VPtr (Some (VUint16 0xFFFF))) = Inr ''65535'' \<and>
   appendValue go_env [] (VPtr (Some VNil)) = Inr ''null'' \<and>
   ParseInt ''-5'' = - 5\<close>
proof -
  note t = appendValue_primitive_cases[of go_env "[]", THEN conjunct2, THEN conjunct1, rule_format]
  have "appendValue go_env [] (VPtr (Some (VBool True))) = Inr ''true''"
    using t[of "VPtr (Some (VBool True))" "VBool True"] by simp
  moreover have "appendValue go_env [] (VBool False) = Inr ''false''"
    using t[of "VBool False" "VBool False"] by simp
  moreover have "appendValue go_env [] (VInt8 0xFB) = Inr ''-5'' \<and> ParseInt ''-5'' = - 5"
    using t[of "VInt8 0xFB" "VInt8 0xFB"]
    by (simp add: FormatInt_def FormatUint.simps digit_char_def)
  moreover have "appendValue go_env [] (VPtr (Some (VInt64 8080))) = Inr ''8080''"
    using t[of "VPtr (Some (VInt64 8080))" "VInt64 8080"]
    by (simp add: FormatInt_def FormatUint.simps digit_char_def)
  moreover have "appendValue go_env [] (VPtr (Some (VUint16 0xFFFF))) = Inr ''65535''"
    using t[of "VPtr (Some (VUint16 0xFFFF))" "VUint16 0xFFFF"]
    by (simp add: FormatUint.simps digit_char_def)
  moreover have "appendValue go_env [] (VPtr (Some VNil)) = Inr ''null''"
    using appendValue_structural[of "VPtr (Some VNil)" VNil go_env "[]"]
    by (simp add: primitive_kind_def deref_def ValueOf_def structural_def go_env_def)
  ultimately show ?thesis by simp
qed

text \<open>
  Claim C7 says that the value encoder is total and that an absent or nil value yields
  \<open>null\<close>. The nil interface is written as \<open>null\<close>, but a typed nil pointer (for
  instance \<open>(*bool)(nil)\<close>) is a nil value on which \<open>appendValue\<close> does not return: the
  interface is not nil, so the test \<open>val == nil\<close> fails; the one dereference gives the
  zero Value, whose kind is \<open>Invalid\<close>; no primitive case applies, and the default case
  calls \<open>value.Interface()\<close> on the zero Value, which panics, whatever the buffer and the
  environment.
\<close>

theorem appendValue_not_total:
  \<open>appendValue e buf VNil = Inr (buf @ ''null'') \<and>
   Kind (ValueOf (VPtr None)) = KPtr \<and>
   Kind (Elem (ValueOf (VPtr None))) = KInvalid \<and>
   appendValue e buf (VPtr None) = Inl ZeroValueInterface\<close>
proof (intro conjI)
  show \<open>appendValue e buf VNil = Inr (buf @ ''null'')\<close>
    by (simp add: appendValue.simps[of e buf VNil])
  show "appendValue e buf (VPtr None) = Inl ZeroValueInterface"
    by (rule appendValue_nil_pointer) (simp_all add: ValueOf_def)
qed (simp_all add: ValueOf_def)

section \<open>Claims C8 to C10: the map of \<open>LogEntry\<close> and the fallback chain\<close>




text \<open>
  The chain of the default case, for a value that \<open>value.Interface()\<close> returns: when
  \<open>json.Marshal\<close> succeeds its bytes are written; when it fails, the \<open>%#v\<close> text of the
  value is marshalled as a string and written; when that fails too, the literal
  \<open>"Could not Sprintf value"\<close> is written.
\<close>

lemma appendValue_fallback_cases:
  assumes "val \<noteq> VNil" and "asError val = None"
    and "deref val = Val i" and "\<not> primitive_kind (Kind (deref val))"
  shows \<open>(Marshal e i = Some b \<longrightarrow> appendValue e buf val = Inr (buf @ b)) \<and>
         (Marshal e i = None \<longrightarrow> Marshal e (VString (Sprintf e i)) = Some s \<longrightarrow>
            appendValue e buf val = Inr (buf @ s)) \<and>
         (Marshal e i = None \<longrightarrow> Marshal e (VString (Sprintf e i)) = None \<longrightarrow>
            appendValue e buf val = Inr (buf @ ''"Could not Sprintf value"''))\<close>
  using assms appendValue_structural[of val i e buf]
  by (auto simp: structural_def fallback_def split: option.splits)

lemma appendValue_fallback_examples:
  \<open>appendValue go_env [] (VString ''a<b'') = Inr (''"a'' @ [CHR 0x5C] @ ''u003cb"'') \<and>
   appendValue go_env [] (VFunc 0x47b0e0) = Inr ''"(func())(0x47b0e0)"'' \<and>
   appendValue (go_env\<lparr>Marshal := \<lambda>v. None\<rparr>) [] (VPtr (Some (VFunc 0x47b0e0))) =
     Inr ''"Could not Sprintf value"''\<close>
proof -
  have \<open>appendValue go_env [] (VString ''a<b'') = Inr (''"a'' @ [CHR 0x5C] @ ''u003cb"'')\<close>
    using appendValue_fallback_cases[of "VString ''a<b''" "VString ''a<b''" go_env
        "quote ''a<b''" "[]" "[]"]
    by (simp add: primitive_kind_def deref_def ValueOf_def go_env_def quote_eval hex_char_def)
  moreover have \<open>appendValue go_env [] (VFunc 0x47b0e0) = Inr ''"(func())(0x47b0e0)"''\<close>
    using appendValue_fallback_cases[of "VFunc 0x47b0e0" "VFunc 0x47b0e0" go_env
        "[]" "[]" "quote ''(func())(0x47b0e0)''"]
    by (simp add: primitive_kind_def deref_def ValueOf_def go_env_def quote_eval FormatHex_47b0e0)
  moreover have \<open>appendValue (go_env\<lparr>Marshal := \<lambda>v. None\<rparr>) [] (VPtr (Some (VFunc 0x47b0e0))) =
     Inr ''"Could not Sprintf value"''\<close>
    using appendValue_fallback_cases[of "VPtr (Some (VFunc 0x47b0e0))" "VFunc 0x47b0e0"
        "go_env\<lparr>Marshal := \<lambda>v. None\<rparr>" "[]" "[]" "[]"]
    by (simp add: primitive_kind_def deref_def ValueOf_def)
  ultimately show ?thesis by simp
qed


text \<open>
  Claim C10. In the map that \<open>LogEntry\<close> returns, the members of the JSON object that
  \<open>Format\<close> wrote collapse by key, the last one winning: the keys of the map are the keys
  of the members, every member is bound to the value of the last member with its key, as
  \<open>json.Unmarshal\<close> decodes it, and the map has fewer entries than there are members
  exactly when a key is repeated. With plain keys and JSON texts as values, these members
  are \<open>_t\<close>, \<open>_l\<close>, \<open>_n\<close>, \<open>_m\<close> and the fields \<open>Format\<close> emitted, call-stack fields
  included, so a field named \<open>_t\<close>, \<open>_l\<close>, \<open>_n\<close> or \<open>_m\<close>, a repeated field key and a
  second call stack each replace an earlier entry.
\<close>

theorem LogEntry_duplicate_keys:
  \<open>(LogEntry jf e level msg args = Inr entry \<longrightarrow>
      (\<exists>out ms. Format jf e [] level msg args = Inr out \<and>
         parse_document out = Some (JObject ms) \<and>
         dom entry = fst ` set ms \<and>
         (\<forall>i i'. i \<le> i' \<and> i' < length ms \<and> fst (ms ! i) = fst (ms ! i') \<and>
                 (\<forall>i''. i' < i'' \<and> i'' < length ms \<longrightarrow> fst (ms ! i'') \<noteq> fst (ms ! i')) \<longrightarrow>
                 entry (fst (ms ! i)) = decode (ParseFloat e) (snd (ms ! i'))) \<and>
         card (dom entry) \<le> length ms \<and>
         (card (dom entry) < length ms \<longleftrightarrow> \<not> distinct (map fst ms)))) \<and>
   (plain (Now e) \<and> plain (LevelMap e level) \<and> plain (name jf) \<and>
    appendValue e [] (VString msg) = Inr (render jm) \<and> wf_value jm \<and>
    list_all2 (emits e) (emitted e args) mss \<longrightarrow>
      (\<exists>out'. Format jf e [] level msg args = Inr out' \<and>
         parse_document out' =
           Some (JObject (record_members (Now e) (LevelMap e level) (name jf) jm (concat mss)))))\<close>
proof (intro conjI impI)
  assume a: "LogEntry jf e level msg args = Inr entry"
  then obtain out where out: "Format jf e [] level msg args = Inr out"
    "json_Unmarshal e out = Some entry"
    by (auto simp: LogEntry_def split: sum.splits option.splits)
  from Format_result(2)[OF out(1)] obtain t where "out = CHR ''{'' # t" by auto
  with json_Unmarshal_Some[of e t entry] out(2) obtain ms kvs where
    ms: "parse_document out = Some (JObject ms)" "decode_members (ParseFloat e) ms = Some kvs"
      "entry = map_of (rev kvs)"
    by auto
  have d: "dom entry = fst ` set ms"
    unfolding ms(3) by (rule decoded_dom[OF ms(2)])
  have lw: "entry (fst (ms ! i)) = decode (ParseFloat e) (snd (ms ! i'))"
    if "i \<le> i' \<and> i' < length ms \<and> fst (ms ! i) = fst (ms ! i') \<and>
        (\<forall>i''. i' < i'' \<and> i'' < length ms \<longrightarrow> fst (ms ! i'') \<noteq> fst (ms ! i'))" for i i'
    using decoded_last_wins[OF ms(2), of i'] that by (simp add: ms(3))
  have c1: "card (dom entry) \<le> length ms"
    by (simp add: d card_keys_le)
  have c2: "card (dom entry) < length ms \<longleftrightarrow> \<not> distinct (map fst ms)"
    by (simp add: d card_keys_less)
  from out(1) ms(1) d lw c1 c2
  show "\<exists>out ms. Format jf e [] level msg args = Inr out \<and>
         parse_document out = Some (JObject ms) \<and>
         dom entry = fst ` set ms \<and>
         (\<forall>i i'. i \<le> i' \<and> i' < length ms \<and> fst (ms ! i) = fst (ms ! i') \<and>
                 (\<forall>i''. i' < i'' \<and> i'' < length ms \<longrightarrow> fst (ms ! i'') \<noteq> fst (ms ! i')) \<longrightarrow>
                 entry (fst (ms ! i)) = decode (ParseFloat e) (snd (ms ! i'))) \<and>
         card (dom entry) \<le> length ms \<and>
         (card (dom entry) < length ms \<longleftrightarrow> \<not> distinct (map fst ms))"
    by blast
next
  assume h: "plain (Now e) \<and> plain (LevelMap e level) \<and> plain (name jf) \<and>
    appendValue e [] (VString msg) = Inr (render jm) \<and> wf_value jm \<and>
    list_all2 (emits e) (emitted e args) mss"
  then have wf: "wf_fields (concat mss)" using wf_fields_emits by blast
  from h have "Format jf e [] level msg args =
      Inr (record_text (Now e) (LevelMap e level) (name jf) jm (concat mss))"
    using Format_record by blast
  moreover from h wf have "parse_document (record_text (Now e) (LevelMap e level) (name jf) jm (concat mss)) =
      Some (JObject (record_members (Now e) (LevelMap e level) (name jf) jm (concat mss)))"
    using parse_record by blast
  ultimately show "\<exists>out'. Format jf e [] level msg args = Inr out' \<and>
         parse_document out' =
           Some (JObject (record_members (Now e) (LevelMap e level) (name jf) jm (concat mss)))"
    by blast
qed

theorem LogEntry_duplicate_keys_witness:
  \<open>list_all2 (emits go_env) (emitted go_env dup_args) dup_fields \<and>
   LogEntry \<lparr>name = ''svc''\<rparr> go_env 6 ''started'' dup_args = Inr (map_of (rev dup_members)) \<and>
   length (record_members ''2026-01-02T15:04:05'' ''INFO'' ''svc'' (JString ''started'')
            (concat dup_fields)) = 10 \<and>
   \<not> distinct (map fst (record_members ''2026-01-02T15:04:05'' ''INFO'' ''svc''
                          (JString ''started'') (concat dup_fields))) \<and>
   card (dom (map_of (rev dup_members))) < 10 \<and>
   card (dom (map_of (rev dup_members))) = 7 \<and>
   map_of (rev dup_members) ''_m'' = Some (GFloat64 0x3FF0000000000000) \<and>
   map_of (rev dup_members) ''a'' = Some (GString ''e1'')\<close>
proof -
  let ?jf = "\<lparr>name = ''svc''\<rparr>"
  let ?ms = "record_members ''2026-01-02T15:04:05'' ''INFO'' ''svc'' (JString ''started'')
               (concat dup_fields)"
  have h1: "plain (Now go_env)" "plain (LevelMap go_env 6)" "plain (name ?jf)"
    by (simp_all add: go_env_def plain_def plain_char_def)
  have h2: "appendValue go_env [] (VString ''started'') = Inr (render (JString ''started''))"
    "wf_value (JString ''started'')"
    by (simp_all add: appendValue_VString structural_def go_env_def ascii_def wf_value_def
        maxNestingDepth_def)
  have h3: "list_all2 (emits go_env) (emitted go_env dup_args) dup_fields"
    unfolding dup_args_def dup_fields_def
    by (simp add: emits_eval) (simp add: go_env_def quote_eval)
  have e: "record_members (Now go_env) (LevelMap go_env 6) (name ?jf)
             (JString ''started'') (concat dup_fields) = ?ms"
    by (simp add: go_env_def)
  have dm: "decode_members (ParseFloat go_env) ?ms = Some dup_members"
    by (simp add: decode_members_def record_members_def dup_fields_def dup_members_def
        go_env_def go_ParseFloat_small)
  have le: "LogEntry ?jf go_env 6 ''started'' dup_args = Inr (map_of (rev dup_members))"
    using LogEntry_members[OF h1 h2 h3, unfolded e, OF dm] .
  note t = LogEntry_duplicate_keys[of ?jf go_env 6 "''started''" dup_args
      "map_of (rev dup_members)" "JString ''started''" dup_fields]
  from t[THEN conjunct1] le obtain out ms where
    out: "Format ?jf go_env [] 6 ''started'' dup_args = Inr out"
      "parse_document out = Some (JObject ms)"
      "card (dom (map_of (rev dup_members))) < length ms \<longleftrightarrow> \<not> distinct (map fst ms)"
    by blast
  from t[THEN conjunct2] h1 h2 h3 obtain out' where
    out': "Format ?jf go_env [] 6 ''started'' dup_args = Inr out'"
      "parse_document out' = Some (JObject ?ms)"
    unfolding e by blast
  from out out' have ms: "ms = ?ms" by simp
  have nd: "\<not> distinct (map fst ?ms)"
    by (simp add: record_members_def dup_fields_def)
  with out(3) ms have c: "card (dom (map_of (rev dup_members))) < length ?ms" by simp
  have "card (dom (map_of (rev dup_members))) = 7"
    by (simp add: dom_map_of_rev dup_members_def)
  with c nd le h3 show ?thesis
    by (simp add: record_members_def dup_fields_def dup_members_def)
qed

end
